theory Spec2Isabelle
  imports Main "HOL-Library.Char_ord" "HOL-Library.List_Lexorder"
begin

section \<open>hackJS: the extraction and classification pipeline of \<open>hackJS.go\<close>\<close>

text \<open>
  A Go \<open>string\<close> is a sequence of bytes; it is modelled as \<^typ>\<open>string\<close>, a list of
  \<^typ>\<open>char\<close> (one \<^typ>\<open>char\<close> per byte). Go compares strings byte by byte, a proper
  prefix being smaller: that is the lexicographic order on lists over the order of
  bytes by their numeric value, which is the order the two imported library theories
  give \<^typ>\<open>string\<close>. A slice of strings is a list of strings.
\<close>

subsection \<open>The functions of Go's package \<open>strings\<close> that the program calls\<close>

text \<open>
  \<open>strings.HasPrefix(s, prefix)\<close> is
  \<open>len(s) >= len(prefix) && s[:len(prefix)] == prefix\<close>, and
  \<open>strings.HasSuffix(s, suffix)\<close> is
  \<open>len(s) >= len(suffix) && s[len(s)-len(suffix):] == suffix\<close>.
\<close>

definition HasPrefix :: "string \<Rightarrow> string \<Rightarrow> bool" where
  "HasPrefix s pre = (length pre \<le> length s \<and> take (length pre) s = pre)"

definition HasSuffix :: "string \<Rightarrow> string \<Rightarrow> bool" where
  "HasSuffix s suf = (length suf \<le> length s \<and> drop (length s - length suf) s = suf)"

text \<open>
  \<open>strings.Index(s, substr)\<close> is the index of the first occurrence of \<open>substr\<close> in
  \<open>s\<close>, or \<open>-1\<close> (here \<open>None\<close>) when there is none; \<open>strings.Contains(s, substr)\<close>
  is \<open>Index(s, substr) >= 0\<close>.
\<close>

fun Index :: "string \<Rightarrow> string \<Rightarrow> nat option" where
  "Index s sub =
     (if HasPrefix s sub then Some 0
      else (case s of
              [] \<Rightarrow> None
            | _ # t \<Rightarrow> (case Index t sub of None \<Rightarrow> None | Some i \<Rightarrow> Some (Suc i))))"

definition Contains :: "string \<Rightarrow> string \<Rightarrow> bool" where
  "Contains s sub = (Index s sub \<noteq> None)"

text \<open>
  \<open>strings.LastIndex(s, substr)\<close>: the index of the last occurrence, or \<open>None\<close>.
\<close>

fun LastIndex :: "string \<Rightarrow> string \<Rightarrow> nat option" where
  "LastIndex s sub =
     (case (case s of [] \<Rightarrow> None | _ # t \<Rightarrow> LastIndex t sub) of
        Some i \<Rightarrow> Some (Suc i)
      | None \<Rightarrow> (if HasPrefix s sub then Some 0 else None))"

text \<open>
  \<open>strings.Cut(s, sep)\<close> slices \<open>s\<close> around the first occurrence of \<open>sep\<close>: the text
  before it, the text after it, and whether \<open>sep\<close> was found (\<open>s\<close>, the empty string
  and \<open>false\<close> when it was not).
\<close>

definition Cut :: "string \<Rightarrow> string \<Rightarrow> string \<times> string \<times> bool" where
  "Cut s sep =
     (case Index s sep of
        Some i \<Rightarrow> (take i s, drop (i + length sep) s, True)
      | None \<Rightarrow> (s, [], False))"

text \<open>
  \<open>strings.Split(s, sep)\<close>, for the one-byte separators the program passes (\<open>"\n"\<close> and
  \<open>"."\<close>): the loop of \<open>genSplit\<close> cuts \<open>s\<close> at every occurrence of the separator and
  ends with what is left, so the result is never empty.
\<close>

function Split :: "string \<Rightarrow> char \<Rightarrow> string list" where
  "Split s sep =
     (case dropWhile (\<lambda>c. c \<noteq> sep) s of
        [] \<Rightarrow> [s]
      | _ # t \<Rightarrow> takeWhile (\<lambda>c. c \<noteq> sep) s # Split t sep)"
  by pat_completeness auto
termination
proof (relation "measure (\<lambda>(s, sep). length s)")
  show "wf (measure (\<lambda>(s, sep). length s))" by simp
next
  fix s :: string and sep :: char and x t
  assume "dropWhile (\<lambda>c. c \<noteq> sep) s = x # t"
  then have "length (x # t) \<le> length s"
    by (metis length_dropWhile_le)
  then show "((t, sep), (s, sep)) \<in> measure (\<lambda>(s, sep). length s)"
    by simp
qed

subsection \<open>Deduplication and sorting\<close>

text \<open>
  \<open>removeDuplicates\<close> walks the slice with a map \<open>encountered\<close> from strings to booleans
  (a key that was never stored reads as \<open>false\<close>), appends every string it meets for
  the first time to \<open>result\<close>, and sorts \<open>result\<close> with \<open>sort.Strings\<close>. The loop is
  \<open>removeDuplicates_loop\<close>, the map a function that is \<open>False\<close> until updated.
  \<open>sort.Strings\<close> sorts into increasing order; on a list the result of that is
  unique, so the library's insertion sort \<^const>\<open>sort\<close> computes it.
\<close>

fun removeDuplicates_loop ::
  "string list \<Rightarrow> (string \<Rightarrow> bool) \<Rightarrow> string list \<Rightarrow> string list" where
  "removeDuplicates_loop [] encountered result = result"
| "removeDuplicates_loop (v # elements) encountered result =
     (if \<not> encountered v
      then removeDuplicates_loop elements (encountered(v := True)) (result @ [v])
      else removeDuplicates_loop elements encountered result)"

definition removeDuplicates :: "string list \<Rightarrow> string list" where
  "removeDuplicates elements = sort (removeDuplicates_loop elements (\<lambda>_. False) [])"

subsection \<open>Go's package \<open>net/url\<close>: \<open>Parse\<close>, \<open>Hostname\<close> and \<open>String\<close>\<close>

text \<open>
  \<open>cleanURL\<close> and \<open>extractDomain\<close> call \<open>url.Parse\<close>, \<open>(*URL).Hostname\<close> and
  \<open>(*URL).String\<close> of the Go standard library. They are modelled function by function
  after the library's source (\<open>net/url/url.go\<close> as of Go 1.22), with the library's
  names: a parse error is the \<open>Inl\<close> of a sum, the struct \<open>URL\<close> a record with the
  library's fields, and a \<open>nil\<close> \<open>*Userinfo\<close> is \<open>None\<close>. The program reads of an error
  only that there is one.
\<close>

datatype url_error =
    InvalidControlCharacter
  | MissingProtocolScheme
  | FirstPathSegmentColon
  | MissingBracketInHost
  | InvalidPort string
  | EscapeError string
  | InvalidHostError string
  | InvalidUserinfo

datatype encoding =
    encodePath
  | encodePathSegment
  | encodeHost
  | encodeZone
  | encodeUserPassword
  | encodeQueryComponent
  | encodeFragment

record Userinfo =
  username :: string
  password :: string
  passwordSet :: bool

record URL =
  Scheme :: string
  Opaque :: string
  User :: "Userinfo option"
  Host :: string
  Path :: string
  RawPath :: string
  OmitHost :: bool
  ForceQuery :: bool
  RawQuery :: string
  Fragment :: string
  RawFragment :: string

text \<open>The zero value of the struct, \<open>new(URL)\<close>.\<close>

definition new_URL :: URL where
  "new_URL = \<lparr>Scheme = [], Opaque = [], User = None, Host = [], Path = [], RawPath = [],
     OmitHost = False, ForceQuery = False, RawQuery = [], Fragment = [], RawFragment = []\<rparr>"

definition is_lower :: "char \<Rightarrow> bool" where
  "is_lower c = (CHR ''a'' \<le> c \<and> c \<le> CHR ''z'')"

definition is_upper :: "char \<Rightarrow> bool" where
  "is_upper c = (CHR ''A'' \<le> c \<and> c \<le> CHR ''Z'')"

definition is_digit :: "char \<Rightarrow> bool" where
  "is_digit c = (CHR ''0'' \<le> c \<and> c \<le> CHR ''9'')"

definition ishex :: "char \<Rightarrow> bool" where
  "ishex c = (is_digit c \<or> (CHR ''a'' \<le> c \<and> c \<le> CHR ''f'') \<or> (CHR ''A'' \<le> c \<and> c \<le> CHR ''F''))"

definition unhex :: "char \<Rightarrow> nat" where
  "unhex c =
     (if is_digit c then of_char c - of_char CHR ''0''
      else if CHR ''a'' \<le> c \<and> c \<le> CHR ''f'' then of_char c - of_char CHR ''a'' + 10
      else if CHR ''A'' \<le> c \<and> c \<le> CHR ''F'' then of_char c - of_char CHR ''A'' + 10
      else 0)"

text \<open>The byte \<open>unhex(a)<<4 | unhex(b)\<close> of an escape \<open>%ab\<close>.\<close>

definition unhex_byte :: "char \<Rightarrow> char \<Rightarrow> char" where
  "unhex_byte a b = char_of (unhex a * 16 + unhex b)"

definition upperhex :: "nat \<Rightarrow> char" where
  "upperhex n = ''0123456789ABCDEF'' ! n"

definition shouldEscape :: "char \<Rightarrow> encoding \<Rightarrow> bool" where
  "shouldEscape c mode =
     (if is_lower c \<or> is_upper c \<or> is_digit c then False
      else if (mode = encodeHost \<or> mode = encodeZone) \<and> c \<in> set ''!$&'()*+,;=:[]<>\"'' then False
      else if c \<in> set ''-_.~'' then False
      else if c \<in> set ''$&+,/:;=?@'' \<and> mode = encodePath then c = CHR ''?''
      else if c \<in> set ''$&+,/:;=?@'' \<and> mode = encodePathSegment
        then c = CHR ''/'' \<or> c = CHR '';'' \<or> c = CHR '','' \<or> c = CHR ''?''
      else if c \<in> set ''$&+,/:;=?@'' \<and> mode = encodeUserPassword
        then c = CHR ''@'' \<or> c = CHR ''/'' \<or> c = CHR ''?'' \<or> c = CHR '':''
      else if c \<in> set ''$&+,/:;=?@'' \<and> mode = encodeQueryComponent then True
      else if c \<in> set ''$&+,/:;=?@'' \<and> mode = encodeFragment then False
      else if mode = encodeFragment \<and> c \<in> set ''!()*'' then False
      else True)"

definition escape :: "string \<Rightarrow> encoding \<Rightarrow> string" where
  "escape s mode =
     concat (map (\<lambda>c.
       if c = CHR '' '' \<and> mode = encodeQueryComponent then ''+''
       else if shouldEscape c mode
         then [CHR ''%'', upperhex (of_char c div 16), upperhex (of_char c mod 16)]
       else [c]) s)"

text \<open>
  \<open>unescape\<close> checks every \<open>%\<close> escape and host byte from left to right, fails at the
  first bad one, and otherwise decodes the escapes.
\<close>

fun unescape :: "string \<Rightarrow> encoding \<Rightarrow> url_error + string" where
  "unescape [] mode = Inr []"
| "unescape (c # s) mode =
     (if c = CHR ''%'' then
        (case s of
           a # b # rest \<Rightarrow>
             if \<not> (ishex a \<and> ishex b) then Inl (EscapeError (take 3 (c # s)))
             else if mode = encodeHost \<and> unhex a < 8 \<and> [c, a, b] \<noteq> ''%25''
               then Inl (EscapeError [c, a, b])
             else if mode = encodeZone \<and> [c, a, b] \<noteq> ''%25'' \<and> unhex_byte a b \<noteq> CHR '' ''
                 \<and> shouldEscape (unhex_byte a b) encodeHost
               then Inl (EscapeError [c, a, b])
             else (case unescape rest mode of
                     Inl e \<Rightarrow> Inl e
                   | Inr t \<Rightarrow> Inr (unhex_byte a b # t))
         | _ \<Rightarrow> Inl (EscapeError (take 3 (c # s))))
      else if c = CHR ''+'' then
        (case unescape s mode of
           Inl e \<Rightarrow> Inl e
         | Inr t \<Rightarrow> Inr ((if mode = encodeQueryComponent then CHR '' '' else CHR ''+'') # t))
      else if (mode = encodeHost \<or> mode = encodeZone) \<and> (of_char c :: nat) < 128
          \<and> shouldEscape c encodeHost
        then Inl (InvalidHostError [c])
      else (case unescape s mode of
              Inl e \<Rightarrow> Inl e
            | Inr t \<Rightarrow> Inr (c # t)))"

definition stringContainsCTLByte :: "string \<Rightarrow> bool" where
  "stringContainsCTLByte s = list_ex (\<lambda>b. (of_char b :: nat) < 32 \<or> (of_char b :: nat) = 127) s"

text \<open>
  \<open>getScheme\<close> scans \<open>rawURL\<close> with an index \<open>i\<close>; \<open>getScheme_from rawURL i cs\<close> is the
  loop at index \<open>i\<close>, \<open>cs\<close> being \<open>rawURL[i:]\<close>.
\<close>

fun getScheme_from :: "string \<Rightarrow> nat \<Rightarrow> string \<Rightarrow> url_error + (string \<times> string)" where
  "getScheme_from rawURL i [] = Inr ([], rawURL)"
| "getScheme_from rawURL i (c # cs) =
     (if is_lower c \<or> is_upper c then getScheme_from rawURL (Suc i) cs
      else if is_digit c \<or> c = CHR ''+'' \<or> c = CHR ''-'' \<or> c = CHR ''.'' then
        (if i = 0 then Inr ([], rawURL) else getScheme_from rawURL (Suc i) cs)
      else if c = CHR '':'' then
        (if i = 0 then Inl MissingProtocolScheme else Inr (take i rawURL, drop (Suc i) rawURL))
      else Inr ([], rawURL))"

definition getScheme :: "string \<Rightarrow> url_error + (string \<times> string)" where
  "getScheme rawURL = getScheme_from rawURL 0 rawURL"

text \<open>
  \<open>strings.ToLower\<close> is applied to a scheme only, which \<open>getScheme\<close> restricts to ASCII
  letters, digits, \<open>+\<close>, \<open>-\<close> and \<open>.\<close>: on those it lowers the ASCII capitals.
\<close>

definition ToLower :: "string \<Rightarrow> string" where
  "ToLower s = map (\<lambda>c. if is_upper c then char_of (of_char c + (32 :: nat)) else c) s"

definition validOptionalPort :: "string \<Rightarrow> bool" where
  "validOptionalPort port =
     (case port of
        [] \<Rightarrow> True
      | c # ds \<Rightarrow> c = CHR '':'' \<and> list_all is_digit ds)"

definition parseHost :: "string \<Rightarrow> url_error + string" where
  "parseHost host =
     (if HasPrefix host ''['' then
        (case LastIndex host '']'' of
           None \<Rightarrow> Inl MissingBracketInHost
         | Some i \<Rightarrow>
             if \<not> validOptionalPort (drop (Suc i) host) then Inl (InvalidPort (drop (Suc i) host))
             else (case Index (take i host) ''%25'' of
                     Some zone \<Rightarrow>
                       (case unescape (take zone host) encodeHost of
                          Inl e \<Rightarrow> Inl e
                        | Inr host1 \<Rightarrow>
                            (case unescape (drop zone (take i host)) encodeZone of
                               Inl e \<Rightarrow> Inl e
                             | Inr host2 \<Rightarrow>
                                 (case unescape (drop i host) encodeHost of
                                    Inl e \<Rightarrow> Inl e
                                  | Inr host3 \<Rightarrow> Inr (host1 @ host2 @ host3))))
                   | None \<Rightarrow> unescape host encodeHost))
      else
        (case LastIndex host '':'' of
           Some i \<Rightarrow>
             if \<not> validOptionalPort (drop i host) then Inl (InvalidPort (drop i host))
             else unescape host encodeHost
         | None \<Rightarrow> unescape host encodeHost))"

definition validUserinfo :: "string \<Rightarrow> bool" where
  "validUserinfo s =
     list_all (\<lambda>r. is_upper r \<or> is_lower r \<or> is_digit r \<or> r \<in> set ''-._:~!$&'()*+,;=%@'') s"

definition parseAuthority :: "string \<Rightarrow> url_error + (Userinfo option \<times> string)" where
  "parseAuthority authority =
     (case LastIndex authority ''@'' of
        None \<Rightarrow>
          (case parseHost authority of
             Inl e \<Rightarrow> Inl e
           | Inr host \<Rightarrow> Inr (None, host))
      | Some i \<Rightarrow>
          (case parseHost (drop (Suc i) authority) of
             Inl e \<Rightarrow> Inl e
           | Inr host \<Rightarrow>
               let userinfo = take i authority in
               if \<not> validUserinfo userinfo then Inl InvalidUserinfo
               else if \<not> Contains userinfo '':'' then
                 (case unescape userinfo encodeUserPassword of
                    Inl e \<Rightarrow> Inl e
                  | Inr name \<Rightarrow>
                      Inr (Some \<lparr>username = name, password = [], passwordSet = False\<rparr>, host))
               else
                 (case Cut userinfo '':'' of
                    (name0, pass0, _) \<Rightarrow>
                      (case unescape name0 encodeUserPassword of
                         Inl e \<Rightarrow> Inl e
                       | Inr name \<Rightarrow>
                           (case unescape pass0 encodeUserPassword of
                              Inl e \<Rightarrow> Inl e
                            | Inr pass \<Rightarrow>
                                Inr (Some \<lparr>username = name, password = pass, passwordSet = True\<rparr>,
                                     host))))))"

definition setPath :: "URL \<Rightarrow> string \<Rightarrow> url_error + URL" where
  "setPath u p =
     (case unescape p encodePath of
        Inl e \<Rightarrow> Inl e
      | Inr path \<Rightarrow>
          Inr (u\<lparr>Path := path, RawPath := (if p = escape path encodePath then [] else p)\<rparr>))"

definition setFragment :: "URL \<Rightarrow> string \<Rightarrow> url_error + URL" where
  "setFragment u f =
     (case unescape f encodeFragment of
        Inl e \<Rightarrow> Inl e
      | Inr frag \<Rightarrow>
          Inr (u\<lparr>Fragment := frag,
                 RawFragment := (if f = escape frag encodeFragment then [] else f)\<rparr>))"

text \<open>
  \<open>parse(rawURL, viaRequest)\<close> with \<open>viaRequest = false\<close>, as \<open>url.Parse\<close> calls it.
  \<open>strings.Count(rest, "?")\<close> counts the bytes \<open>?\<close> of \<open>rest\<close>.
\<close>

definition parse :: "string \<Rightarrow> url_error + URL" where
  "parse rawURL =
     (if stringContainsCTLByte rawURL then Inl InvalidControlCharacter
      else if rawURL = ''*'' then Inr (new_URL\<lparr>Path := ''*''\<rparr>)
      else
        (case getScheme rawURL of
           Inl e \<Rightarrow> Inl e
         | Inr (scheme0, rest0) \<Rightarrow>
             let url1 = new_URL\<lparr>Scheme := ToLower scheme0\<rparr>;
                 force = (HasSuffix rest0 ''?'' \<and> count_list rest0 CHR ''?'' = 1);
                 rest = (if force then butlast rest0 else fst (Cut rest0 ''?''));
                 url = url1\<lparr>ForceQuery := force,
                             RawQuery := (if force then [] else fst (snd (Cut rest0 ''?'')))\<rparr>
             in
               if \<not> HasPrefix rest ''/'' \<and> Scheme url \<noteq> [] then Inr (url\<lparr>Opaque := rest\<rparr>)
               else if \<not> HasPrefix rest ''/'' \<and> Contains (fst (Cut rest ''/'')) '':''
                 then Inl FirstPathSegmentColon
               else if (Scheme url \<noteq> [] \<or> \<not> HasPrefix rest ''///'') \<and> HasPrefix rest ''//'' then
                 (let authority0 = drop 2 rest;
                      authority = (case Index authority0 ''/'' of
                                     Some i \<Rightarrow> take i authority0 | None \<Rightarrow> authority0);
                      rest' = (case Index authority0 ''/'' of
                                 Some i \<Rightarrow> drop i authority0 | None \<Rightarrow> [])
                  in (case parseAuthority authority of
                        Inl e \<Rightarrow> Inl e
                      | Inr (user, host) \<Rightarrow> setPath (url\<lparr>User := user, Host := host\<rparr>) rest'))
               else if Scheme url \<noteq> [] \<and> HasPrefix rest ''/''
                 then setPath (url\<lparr>OmitHost := True\<rparr>) rest
               else setPath url rest))"

definition Parse :: "string \<Rightarrow> url_error + URL" where
  "Parse rawURL =
     (case Cut rawURL ''#'' of
        (u, frag, _) \<Rightarrow>
          (case parse u of
             Inl e \<Rightarrow> Inl e
           | Inr url \<Rightarrow> if frag = [] then Inr url else setFragment url frag))"

text \<open>\<open>(*URL).Hostname\<close>: the host without a valid port and without the brackets.\<close>

definition splitHostPort :: "string \<Rightarrow> string \<times> string" where
  "splitHostPort hostPort =
     (let colon = LastIndex hostPort '':'';
          host = (case colon of
                    Some i \<Rightarrow> if validOptionalPort (drop i hostPort) then take i hostPort
                              else hostPort
                  | None \<Rightarrow> hostPort);
          port = (case colon of
                    Some i \<Rightarrow> if validOptionalPort (drop i hostPort) then drop (Suc i) hostPort
                              else []
                  | None \<Rightarrow> [])
      in (if HasPrefix host ''['' \<and> HasSuffix host '']''
          then take (length host - 2) (drop 1 host) else host, port))"

definition Hostname :: "URL \<Rightarrow> string" where
  "Hostname u = fst (splitHostPort (Host u))"

text \<open>\<open>(*URL).String\<close> and the functions it calls.\<close>

definition validEncoded :: "string \<Rightarrow> encoding \<Rightarrow> bool" where
  "validEncoded s mode =
     list_all (\<lambda>c. c \<in> set ''!$&'()*+,;=:@[]%'' \<or> \<not> shouldEscape c mode) s"

definition EscapedPath :: "URL \<Rightarrow> string" where
  "EscapedPath u =
     (if RawPath u \<noteq> [] \<and> validEncoded (RawPath u) encodePath
         \<and> unescape (RawPath u) encodePath = Inr (Path u)
      then RawPath u
      else if Path u = ''*'' then ''*''
      else escape (Path u) encodePath)"

definition EscapedFragment :: "URL \<Rightarrow> string" where
  "EscapedFragment u =
     (if RawFragment u \<noteq> [] \<and> validEncoded (RawFragment u) encodeFragment
         \<and> unescape (RawFragment u) encodeFragment = Inr (Fragment u)
      then RawFragment u
      else escape (Fragment u) encodeFragment)"

definition Userinfo_String :: "Userinfo \<Rightarrow> string" where
  "Userinfo_String ui =
     escape (username ui) encodeUserPassword
     @ (if passwordSet ui then '':'' @ escape (password ui) encodeUserPassword else [])"

text \<open>
  \<open>String\<close> writes into a buffer; \<open>buf0\<close> to \<open>buf3\<close> are the buffer after each step, so
  that the test \<open>buf.Len() == 0\<close> reads the buffer written so far.
\<close>

definition URL_String :: "URL \<Rightarrow> string" where
  "URL_String u =
     (let buf0 = (if Scheme u \<noteq> [] then Scheme u @ '':'' else []);
          body =
            (if Opaque u \<noteq> [] then buf0 @ Opaque u
             else
               (let buf1 = buf0 @
                      (if Scheme u \<noteq> [] \<or> Host u \<noteq> [] \<or> User u \<noteq> None then
                         (if OmitHost u \<and> Host u = [] \<and> User u = None then []
                          else (if Host u \<noteq> [] \<or> Path u \<noteq> [] \<or> User u \<noteq> None then ''//'' else [])
                             @ (case User u of None \<Rightarrow> [] | Some ui \<Rightarrow> Userinfo_String ui @ ''@'')
                             @ (if Host u \<noteq> [] then escape (Host u) encodeHost else []))
                       else []);
                    path = EscapedPath u;
                    buf2 = buf1 @
                      (if path \<noteq> [] \<and> \<not> HasPrefix path ''/'' \<and> Host u \<noteq> [] then ''/'' else []);
                    buf3 = buf2 @
                      (if buf2 = [] \<and> Contains (fst (Cut path ''/'')) '':'' then ''./'' else [])
                in buf3 @ path))
      in body
         @ (if ForceQuery u \<or> RawQuery u \<noteq> [] then ''?'' @ RawQuery u else [])
         @ (if Fragment u \<noteq> [] then ''#'' @ EscapedFragment u else []))"

subsection \<open>The domain utility of the program\<close>

text \<open>
  \<open>cleanURL\<close> returns its argument when \<open>url.Parse\<close> fails, and otherwise sets the field
  \<open>Fragment\<close> to the empty string and serialises the URL.
\<close>

definition cleanURL :: "string \<Rightarrow> string" where
  "cleanURL dirtyURL =
     (case Parse dirtyURL of
        Inl err \<Rightarrow> dirtyURL
      | Inr u \<Rightarrow> URL_String (u\<lparr>Fragment := []\<rparr>))"

text \<open>
  \<open>extractDomain\<close> returns the empty string when \<open>url.Parse\<close> fails; otherwise it splits
  the host name at the dots and returns the last two parts joined by a dot when there
  are at least two, and the host name when there is one.
\<close>

definition extractDomain :: "string \<Rightarrow> string" where
  "extractDomain rawURL =
     (case Parse rawURL of
        Inl err \<Rightarrow> []
      | Inr parsedURL \<Rightarrow>
          let host = Hostname parsedURL;
              parts = Split host CHR ''.''
          in if length parts \<ge> 2
             then parts ! (length parts - 2) @ ''.'' @ parts ! (length parts - 1)
             else host)"

subsection \<open>Go's package \<open>regexp\<close>: leftmost-first matching\<close>

text \<open>
  A Go regular expression returns the match that begins as early as possible and, among
  those, the one a backtracking matcher finds first. The three patterns of the program
  are built from literals, classes of single characters, concatenation, the greedy
  operators \<open>?\<close>, \<open>+\<close> and \<open>{m,n}\<close>, one capturing group and the ASCII word boundary
  \<open>\b\<close>; \<open>regex\<close> has a constructor for each. The patterns name ASCII characters only
  (in a class or in the complement of a class), so matching byte by byte finds the
  matches that Go's matching of UTF-8 sequences finds.

  A \<open>thread\<close> is a position of the matcher in the text: the byte before the position
  (\<open>None\<close> at the start of the text), the text from the position on, and the text of
  capturing group 1 when the group has matched.
\<close>

datatype regex =
    Lit string
  | Class "char \<Rightarrow> bool"
  | Seq regex regex
  | Quest regex
  | Plus regex
  | Capture regex
  | WordBoundary

record thread =
  prev :: "char option"
  input :: string
  group1 :: "string option"

text \<open>The class \<open>\w\<close>, and the test of \<open>\b\<close>: a word character on exactly one side.\<close>

definition is_word :: "char \<Rightarrow> bool" where
  "is_word c = (is_digit c \<or> is_upper c \<or> is_lower c \<or> c = CHR ''_'')"

definition at_word_boundary :: "thread \<Rightarrow> bool" where
  "at_word_boundary t =
     ((case prev t of None \<Rightarrow> False | Some c \<Rightarrow> is_word c)
      \<noteq> (case input t of [] \<Rightarrow> False | c # _ \<Rightarrow> is_word c))"

text \<open>
  \<open>step re t\<close> lists the positions at which a match of \<open>re\<close> that starts at \<open>t\<close> can
  end, in the order in which backtracking tries them: a greedy operator tries the longer
  alternative first. An iteration of \<open>+\<close> that consumed nothing is not repeated (no
  pattern of the program has such an iteration: each repeated expression consumes at
  least one byte).
\<close>

function step :: "regex \<Rightarrow> thread \<Rightarrow> thread list" where
  "step (Lit l) t =
     (if HasPrefix (input t) l
      then [t\<lparr>prev := (if l = [] then prev t else Some (last l)),
              input := drop (length l) (input t)\<rparr>]
      else [])"
| "step (Class P) t =
     (case input t of
        [] \<Rightarrow> []
      | c # cs \<Rightarrow> if P c then [t\<lparr>prev := Some c, input := cs\<rparr>] else [])"
| "step (Seq a b) t = concat (map (step b) (step a t))"
| "step (Quest a) t = step a t @ [t]"
| "step (Plus a) t =
     concat (map (\<lambda>t'. (if length (input t') < length (input t) then step (Plus a) t' else [])
                          @ [t'])
       (step a t))"
| "step (Capture a) t =
     map (\<lambda>t'. t'\<lparr>group1 := Some (take (length (input t) - length (input t')) (input t))\<rparr>)
       (step a t)"
| "step WordBoundary t = (if at_word_boundary t then [t] else [])"
  by pat_completeness auto
termination
  by (relation "measures [\<lambda>(r, t). size r, \<lambda>(r, t). length (input t)]") auto

declare step.simps(5) [simp del]

text \<open>
  \<open>doExecute re t\<close> is the leftmost match at or after the position \<open>t\<close>: the position
  where it starts and the position where it ends, or \<open>None\<close> when there is no match.
\<close>

function doExecute :: "regex \<Rightarrow> thread \<Rightarrow> (thread \<times> thread) option" where
  "doExecute re t =
     (case step re t of
        t' # _ \<Rightarrow> Some (t, t')
      | [] \<Rightarrow>
          (case input t of
             [] \<Rightarrow> None
           | c # cs \<Rightarrow> doExecute re (t\<lparr>prev := Some c, input := cs\<rparr>)))"
  by pat_completeness auto
termination
  by (relation "measure (\<lambda>(re, t). length (input t))") auto

text \<open>
  The loop of \<open>(*Regexp).allMatches\<close> with no limit on the number of matches. Positions
  are compared by the length of the text that is left. A match that is empty and ends at
  the position of the search is dropped when the previous match ended there, and the
  search moves on by one byte; after any other match the search goes on where the match
  ended. Each match is delivered as its text and the text of group 1.
\<close>

function allMatches ::
  "regex \<Rightarrow> thread \<Rightarrow> nat option \<Rightarrow> (string \<times> string option) list" where
  "allMatches re t prevMatchEnd =
     (case doExecute re (t\<lparr>group1 := None\<rparr>) of
        None \<Rightarrow> []
      | Some (t0, t1) \<Rightarrow>
          (if length (input t1) = length (input t) then
             (if prevMatchEnd = Some (length (input t0)) then []
              else [(take (length (input t0) - length (input t1)) (input t0), group1 t1)])
             @ (case input t of
                  [] \<Rightarrow> []
                | c # cs \<Rightarrow>
                    allMatches re (t\<lparr>prev := Some c, input := cs\<rparr>) (Some (length (input t1))))
           else
             (take (length (input t0) - length (input t1)) (input t0), group1 t1)
             # allMatches re t1 (Some (length (input t1)))))"
  by pat_completeness auto
termination
proof (relation "measure (\<lambda>(re, t, p). length (input t))")
  show "wf (measure (\<lambda>(re, t, p). length (input t)))" by simp
next
  fix re :: regex and t :: thread and prevMatchEnd :: "nat option" and y :: thread and c cs
  assume "input t = c # cs"
  then show "((re, t\<lparr>prev := Some c, input := cs\<rparr>, Some (length (input y))), re, t, prevMatchEnd)
       \<in> measure (\<lambda>(re, t, p). length (input t))"
    by simp
next
  fix re :: regex and t :: thread and prevMatchEnd :: "nat option" and x2 x y
  assume a: "doExecute re (t\<lparr>group1 := None\<rparr>) = Some x2" "(x, y) = x2"
    "length (input y) \<noteq> length (input t)"
  have step_le: "length (input t') \<le> length (input t)" if "t' \<in> set (step r t)" for t' r t
    using that
  proof (induction r t arbitrary: t' rule: step.induct)
    case (1 l t)
    then show ?case by (auto split: if_splits)
  next
    case (2 P t)
    then show ?case by (cases "input t") (auto split: if_splits)
  next
    case (3 a b t)
    then show ?case by fastforce
  next
    case (4 a t)
    then show ?case by auto
  next
    case (5 a t)
    from "5.prems" obtain u where u: "u \<in> set (step a t)"
      and t': "t' \<in> set ((if length (input u) < length (input t) then step (Plus a) u else []) @ [u])"
      by (subst (asm) step.simps(5)) auto
    from u have le: "length (input u) \<le> length (input t)" by (rule "5.IH"(1))
    show ?case
    proof (cases "t' = u")
      case True
      with le show ?thesis by simp
    next
      case False
      with t' have lt: "length (input u) < length (input t)" and "t' \<in> set (step (Plus a) u)"
        by (auto split: if_splits)
      with "5.IH"(2) [OF u] have "length (input t') \<le> length (input u)" by blast
      with lt show ?thesis by simp
    qed
  next
    case (6 a t)
    then show ?case by fastforce
  next
    case (7 t)
    then show ?case by (auto split: if_splits)
  qed
  have exec_le: "length (input t1) \<le> length (input t0) \<and> length (input t0) \<le> length (input t)"
    if "doExecute r t = Some (t0, t1)" for r t t0 t1
    using that
  proof (induction r t rule: doExecute.induct)
    case (1 re t)
    show ?case
    proof (cases "step re t")
      case Nil
      with 1 show ?thesis
        by (cases "input t") (auto split: list.splits)
    next
      case (Cons t' ts)
      then have "t' \<in> set (step re t)" by simp
      then have "length (input t') \<le> length (input t)" by (rule step_le)
      with Cons "1.prems" show ?thesis by simp
    qed
  qed
  from a have "doExecute re (t\<lparr>group1 := None\<rparr>) = Some (x, y)" by simp
  from exec_le [OF this] a(3) have "length (input y) < length (input t)" by simp
  then show "((re, y, Some (length (input y))), re, t, prevMatchEnd)
       \<in> measure (\<lambda>(re, t, p). length (input t))"
    by simp
qed

text \<open>
  \<open>FindAllStringSubmatch(s, -1)\<close> gives, for every match, its text and the text of
  group 1; \<open>FindAllString(s, -1)\<close> gives the text of every match.
\<close>

definition FindAllStringSubmatch :: "regex \<Rightarrow> string \<Rightarrow> (string \<times> string option) list" where
  "FindAllStringSubmatch re s = allMatches re \<lparr>prev = None, input = s, group1 = None\<rparr> None"

definition FindAllString :: "regex \<Rightarrow> string \<Rightarrow> string list" where
  "FindAllString re s = map fst (FindAllStringSubmatch re s)"

text \<open>
  A counted repetition \<open>x{m,n}\<close> is \<open>m\<close> copies of \<open>x\<close> followed by \<open>n - m\<close> nested
  optional copies, \<open>x{2,5} = xx(x(x(x)?)?)?\<close>, as the library's simplifier rewrites it.
\<close>

fun repeat_upto :: "nat \<Rightarrow> regex \<Rightarrow> regex" where
  "repeat_upto 0 a = Lit []"
| "repeat_upto (Suc n) a = Quest (Seq a (repeat_upto n a))"

fun Repeat :: "nat \<Rightarrow> nat \<Rightarrow> regex \<Rightarrow> regex" where
  "Repeat 0 n a = repeat_upto n a"
| "Repeat (Suc m) n a = Seq a (Repeat m (n - 1) a)"

text \<open>The class \<open>\s\<close>: tab, line feed, form feed, carriage return and space.\<close>

definition is_space :: "char \<Rightarrow> bool" where
  "is_space c = (c \<in> set [CHR 0x09, CHR 0x0A, CHR 0x0C, CHR 0x0D, CHR '' ''])"

subsection \<open>The patterns of the program\<close>

text \<open>The pattern of \<open>extractJSFiles\<close>: \<^verbatim>\<open>src="([^"]+\.js)"\<close>.\<close>

definition re_jsFiles :: regex where
  "re_jsFiles =
     Seq (Lit ''src=\"'')
       (Seq (Capture (Seq (Plus (Class (\<lambda>c. c \<noteq> CHR ''\"''))) (Lit ''.js'')))
         (Lit ''\"''))"

text \<open>The pattern of \<open>extractLinks\<close>: \<^verbatim>\<open>https?://[^\s"<>()']+\<close>.\<close>

definition re_links :: regex where
  "re_links =
     Seq (Lit ''http'') (Seq (Quest (Lit ''s'')) (Seq (Lit ''://'')
       (Plus (Class (\<lambda>c. \<not> (is_space c \<or> c \<in> set ''\"<>()'' \<or> c = CHR 0x27))))))"

text \<open>
  The pattern of \<open>extractSubdomains\<close>:
  \<^verbatim>\<open>\b(?:[a-z0-9](?:[a-z0-9-]{0,61}[a-z0-9])?\.)+[a-z]{2,6}\b\<close>.
\<close>

definition re_subdomains :: regex where
  "re_subdomains =
     Seq WordBoundary
       (Seq (Plus
              (Seq (Class (\<lambda>c. is_lower c \<or> is_digit c))
                (Seq (Quest
                       (Seq (Repeat 0 61 (Class (\<lambda>c. is_lower c \<or> is_digit c \<or> c = CHR ''-'')))
                            (Class (\<lambda>c. is_lower c \<or> is_digit c))))
                  (Lit ''.''))))
         (Seq (Repeat 2 6 (Class is_lower)) WordBoundary))"

subsection \<open>The pattern extractors\<close>

text \<open>
  Each extractor appends to a slice inside \<open>for ... range\<close> loops; a loop over a slice
  that carries the slice built so far is a \<^const>\<open>foldl\<close>. \<open>match[1]\<close> is the text of
  group 1, the empty string for a group that did not match.
\<close>

definition extractJSFiles :: "string \<Rightarrow> string \<Rightarrow> string list" where
  "extractJSFiles html baseURL =
     foldl (\<lambda>jsFiles match.
              let jsFile = (case snd match of Some g \<Rightarrow> g | None \<Rightarrow> []);
                  jsFile' = (if \<not> HasPrefix jsFile ''http'' then baseURL @ ''/'' @ jsFile
                             else jsFile)
              in jsFiles @ [cleanURL jsFile'])
       [] (FindAllStringSubmatch re_jsFiles html)"

definition extractLinks :: "string \<Rightarrow> string \<Rightarrow> string list" where
  "extractLinks jsContent baseURL =
     (let lines = Split jsContent CHR 0x0A;
          baseDomain = extractDomain baseURL
      in foldl (\<lambda>matches line.
                  foldl (\<lambda>matches match.
                           if Contains match baseDomain \<and> \<not> HasSuffix match ''.js''
                           then matches @ [cleanURL match] else matches)
                    matches (FindAllString re_links line))
           [] lines)"

definition extractSubdomains :: "string \<Rightarrow> string \<Rightarrow> string list" where
  "extractSubdomains jsContent baseURL =
     (let lines = Split jsContent CHR 0x0A;
          baseDomain = extractDomain baseURL
      in foldl (\<lambda>matches line.
                  foldl (\<lambda>matches match.
                           if Contains match baseDomain then matches @ [match] else matches)
                    matches (FindAllString re_subdomains line))
           [] lines)"

subsection \<open>The sensitive-data matcher\<close>

text \<open>
  \<open>fmt.Sprintf\<close> with the format of \<open>findSensitiveData\<close>: the UTF-8 bytes of the two
  symbols of the format around the word and the script URL. The global \<open>sensitiveWords\<close>
  is the first argument of \<open>findSensitiveData\<close>.
\<close>

definition Sprintf_finding :: "string \<Rightarrow> string \<Rightarrow> string" where
  "Sprintf_finding word jsFile =
     [CHR 0xF0, CHR 0x9F, CHR 0x94, CHR 0xB9] @ '' '' @ word @ '' ''
     @ [CHR 0xE2, CHR 0x9E, CHR 0x94] @ '' '' @ jsFile"

definition findSensitiveData :: "string list \<Rightarrow> string \<Rightarrow> string \<Rightarrow> string list" where
  "findSensitiveData sensitiveWords jsContent jsFile =
     foldl (\<lambda>matches word.
              if Contains jsContent word then matches @ [Sprintf_finding word jsFile]
              else matches)
       [] sensitiveWords"

subsection \<open>The scope filters\<close>

fun filterLinks_loop ::
  "string list \<Rightarrow> string \<Rightarrow> (string \<Rightarrow> bool) \<Rightarrow> string list \<Rightarrow> string list" where
  "filterLinks_loop [] baseDomain encountered filteredLinks = filteredLinks"
| "filterLinks_loop (link # links) baseDomain encountered filteredLinks =
     (if \<not> encountered link \<and> Contains link baseDomain
      then filterLinks_loop links baseDomain (encountered(link := True)) (filteredLinks @ [link])
      else filterLinks_loop links baseDomain encountered filteredLinks)"

definition filterLinks :: "string list \<Rightarrow> string \<Rightarrow> string list" where
  "filterLinks links baseURL = filterLinks_loop links (extractDomain baseURL) (\<lambda>_. False) []"

fun filterSubdomains_loop ::
  "string list \<Rightarrow> string \<Rightarrow> (string \<Rightarrow> bool) \<Rightarrow> string list \<Rightarrow> string list" where
  "filterSubdomains_loop [] baseDomain encountered filteredSubdomains = filteredSubdomains"
| "filterSubdomains_loop (subdomain # subdomains) baseDomain encountered filteredSubdomains =
     (if \<not> encountered subdomain \<and> HasSuffix subdomain baseDomain
      then filterSubdomains_loop subdomains baseDomain (encountered(subdomain := True))
             (filteredSubdomains @ [subdomain])
      else filterSubdomains_loop subdomains baseDomain encountered filteredSubdomains)"

definition filterSubdomains :: "string list \<Rightarrow> string \<Rightarrow> string list" where
  "filterSubdomains subdomains baseURL =
     filterSubdomains_loop subdomains (extractDomain baseURL) (\<lambda>_. False) []"

subsection \<open>Processing one target\<close>

text \<open>
  \<open>httpGet\<close> followed by \<open>ioutil.ReadAll\<close> is a parameter: \<open>fetch n url\<close> is the body
  that the \<open>n\<close>-th request of \<open>processURL\<close> receives for \<open>url\<close>, or \<open>None\<close> when either
  call returns an error. Request \<open>0\<close> asks for the target, request \<open>k\<close> for the \<open>k\<close>-th
  script reference. \<open>processURL\<close> returns early when the target cannot be fetched and
  when its page has no script reference; otherwise it hands the four slices of
  \<open>results\<close> to \<open>printResults\<close> and \<open>saveResultsToFiles\<close>.
\<close>

datatype process_error = ErrorFetchingURL | NoJavaScriptFilesFound

record results =
  Links :: "string list"
  Subdomains :: "string list"
  JSFiles :: "string list"
  SensitiveData :: "string list"

text \<open>
  The loop over the script references: a script that cannot be fetched is skipped
  (\<open>continue\<close>); the three slices grow by what the script yields.
\<close>

fun processURL_loop ::
  "(nat \<Rightarrow> string \<Rightarrow> string option) \<Rightarrow> string list \<Rightarrow> string \<Rightarrow> nat \<Rightarrow> string list
     \<Rightarrow> string list \<times> string list \<times> string list \<Rightarrow> string list \<times> string list \<times> string list" where
  "processURL_loop fetch sensitiveWords targetURL n [] acc = acc"
| "processURL_loop fetch sensitiveWords targetURL n (jsFile # jsFiles)
       (results, subdomains, sensitiveData) =
     (case fetch n jsFile of
        None \<Rightarrow>
          processURL_loop fetch sensitiveWords targetURL (Suc n) jsFiles
            (results, subdomains, sensitiveData)
      | Some jsContent \<Rightarrow>
          processURL_loop fetch sensitiveWords targetURL (Suc n) jsFiles
            (results @ filterLinks (extractLinks jsContent targetURL) targetURL,
             subdomains @ filterSubdomains (extractSubdomains jsContent targetURL) targetURL,
             sensitiveData @ findSensitiveData sensitiveWords jsContent jsFile))"

definition processURL ::
  "(nat \<Rightarrow> string \<Rightarrow> string option) \<Rightarrow> string list \<Rightarrow> string \<Rightarrow> process_error + results" where
  "processURL fetch sensitiveWords targetURL =
     (case fetch 0 targetURL of
        None \<Rightarrow> Inl ErrorFetchingURL
      | Some body \<Rightarrow>
          let jsFiles = extractJSFiles body targetURL in
          if jsFiles = [] then Inl NoJavaScriptFilesFound
          else
            (case processURL_loop fetch sensitiveWords targetURL 1 jsFiles ([], [], []) of
               (results, subdomains, sensitiveData) \<Rightarrow>
                 Inr \<lparr>Links = removeDuplicates results,
                      Subdomains = removeDuplicates subdomains,
                      JSFiles = removeDuplicates jsFiles,
                      SensitiveData = removeDuplicates sensitiveData\<rparr>))"

subsection \<open>A sample run\<close>

text \<open>
  One target whose page names two scripts: one on the target's host by a root-relative
  path, one on another domain. The first script can be fetched, the second cannot.
\<close>

definition example_target :: string where
  "example_target = ''https://x.com''"

definition example_page :: string where
  "example_page =
     ''<script src=\"/app.js\"></script><script src=\"http://cdn.evil.org/lib.js\"></script>''"

definition example_script :: string where
  "example_script =
     ''var a = \"https://api.x.com/v1#top\"; var k = \"SECRET_KEY_1\"; // www.x.com''"

definition example_fetch :: "nat \<Rightarrow> string \<Rightarrow> string option" where
  "example_fetch n url =
     (if url = ''https://x.com'' then Some example_page
      else if url = ''https://x.com//app.js'' then Some example_script
      else None)"

definition example_results :: results where
  "example_results =
     \<lparr>Links = [''https://api.x.com/v1''],
      Subdomains = [''api.x.com'', ''www.x.com''],
      JSFiles = [''http://cdn.evil.org/lib.js'', ''https://x.com//app.js''],
      SensitiveData = [Sprintf_finding ''SECRET_KEY'' ''https://x.com//app.js'']\<rparr>"

section \<open>Properties\<close>

text \<open>
  The recursion equations of the functions that are not defined by pattern matching
  rewrite their own right-hand sides; they are applied by hand.
\<close>

declare Index.simps [simp del] LastIndex.simps [simp del] Split.simps [simp del]
  doExecute.simps [simp del] allMatches.simps [simp del]


subsection \<open>The functions of package \<open>strings\<close>\<close>

lemma HasPrefix_iff: "HasPrefix s p \<longleftrightarrow> (\<exists>r. s = p @ r)"
proof
  assume "HasPrefix s p"
  then have "s = p @ drop (length p) s"
    by (metis HasPrefix_def append_take_drop_id)
  then show "\<exists>r. s = p @ r" ..
next
  assume "\<exists>r. s = p @ r"
  then show "HasPrefix s p" by (auto simp: HasPrefix_def)
qed

lemma HasSuffix_iff: "HasSuffix s p \<longleftrightarrow> (\<exists>r. s = r @ p)"
proof
  assume "HasSuffix s p"
  then have "s = take (length s - length p) s @ p"
    by (metis HasSuffix_def append_take_drop_id)
  then show "\<exists>r. s = r @ p" ..
next
  assume "\<exists>r. s = r @ p"
  then show "HasSuffix s p" by (auto simp: HasSuffix_def)
qed

lemma Index_None_iff: "Index s sub = None \<longleftrightarrow> \<not> (\<exists>a b. s = a @ sub @ b)"
proof (induction s)
  case Nil
  show ?case by (subst Index.simps) (auto simp: HasPrefix_iff)
next
  case (Cons c s)
  have "(\<exists>a b. c # s = a @ sub @ b) \<longleftrightarrow> (\<exists>r. c # s = sub @ r) \<or> (\<exists>a b. s = a @ sub @ b)"
  proof
    assume "\<exists>a b. c # s = a @ sub @ b"
    then obtain a b where ab: "c # s = a @ sub @ b" by blast
    show "(\<exists>r. c # s = sub @ r) \<or> (\<exists>a b. s = a @ sub @ b)"
    proof (cases a)
      case Nil
      with ab show ?thesis by auto
    next
      case (Cons x a')
      with ab have "s = a' @ sub @ b" by simp
      then show ?thesis by blast
    qed
  next
    assume "(\<exists>r. c # s = sub @ r) \<or> (\<exists>a b. s = a @ sub @ b)"
    then show "\<exists>a b. c # s = a @ sub @ b"
    proof
      assume "\<exists>r. c # s = sub @ r"
      then obtain r where "c # s = [] @ sub @ r" by auto
      then show ?thesis by blast
    next
      assume "\<exists>a b. s = a @ sub @ b"
      then obtain a b where "c # s = (c # a) @ sub @ b" by auto
      then show ?thesis by blast
    qed
  qed
  with Cons show ?case
    by (subst Index.simps) (auto simp: HasPrefix_iff split: option.splits)
qed

lemma Contains_iff: "Contains s sub \<longleftrightarrow> (\<exists>a b. s = a @ sub @ b)"
  by (simp add: Contains_def Index_None_iff)


lemma foldl_append_map:
  "foldl (\<lambda>acc x. acc @ [f x]) acc xs = acc @ map f xs"
  by (induction xs arbitrary: acc) auto

subsection \<open>The deduplication loop\<close>

lemma removeDuplicates_loop_set:
  "set (removeDuplicates_loop xs enc res) = set res \<union> {x \<in> set xs. \<not> enc x}"
  by (induction xs arbitrary: enc res) auto

lemma removeDuplicates_loop_distinct:
  "distinct res \<Longrightarrow> (\<forall>x \<in> set res. enc x) \<Longrightarrow> distinct (removeDuplicates_loop xs enc res)"
proof (induction xs arbitrary: enc res)
  case Nil
  then show ?case by simp
next
  case (Cons a xs)
  show ?case
  proof (cases "enc a")
    case True
    with Cons show ?thesis by simp
  next
    case False
    with Cons.prems have "distinct (res @ [a])" by auto
    moreover from Cons.prems have "\<forall>x \<in> set (res @ [a]). (enc(a := True)) x" by auto
    ultimately have "distinct (removeDuplicates_loop xs (enc(a := True)) (res @ [a]))"
      by (rule Cons.IH)
    with False show ?thesis by simp
  qed
qed

lemma removeDuplicates_set: "set (removeDuplicates xs) = set xs"
  by (simp add: removeDuplicates_def removeDuplicates_loop_set)

lemma removeDuplicates_distinct: "distinct (removeDuplicates xs)"
  by (simp add: removeDuplicates_def removeDuplicates_loop_distinct)

lemma removeDuplicates_sorted: "sorted (removeDuplicates xs)"
  by (simp add: removeDuplicates_def)

lemma removeDuplicates_eq: "removeDuplicates xs = sorted_list_of_set (set xs)"
proof (rule sorted_distinct_set_unique)
  show "sorted (removeDuplicates xs)" by (rule removeDuplicates_sorted)
  show "distinct (removeDuplicates xs)" by (rule removeDuplicates_distinct)
  show "set (removeDuplicates xs) = set (sorted_list_of_set (set xs))"
    by (simp add: removeDuplicates_set)
qed simp_all

text \<open>
  C7. Deduplication is idempotent: for every list of strings \<open>xs\<close>,
  \<open>removeDuplicates (removeDuplicates xs)\<close> is \<open>removeDuplicates xs\<close>.
\<close>

theorem removeDuplicates_idempotent:
  "removeDuplicates (removeDuplicates xs) = removeDuplicates xs"
  by (simp add: removeDuplicates_eq)


subsection \<open>The sample run\<close>

lemma example_run:
  "processURL example_fetch [''SECRET_KEY''] example_target = Inr example_results"
  by code_simp

lemma example_domain: "extractDomain example_target = ''x.com''"
  by code_simp

lemma example_links:
  "removeDuplicates (filterLinks (extractLinks example_script example_target) example_target)
     = [''https://api.x.com/v1'']"
  by code_simp

subsection \<open>The scope filters\<close>

lemma filterLinks_loop_subset:
  "x \<in> set (filterLinks_loop links d enc res) \<Longrightarrow> x \<in> set res \<or> Contains x d"
  by (induction links d enc res rule: filterLinks_loop.induct) (auto split: if_splits)

lemma filterSubdomains_loop_subset:
  "x \<in> set (filterSubdomains_loop subs d enc res) \<Longrightarrow> x \<in> set res \<or> HasSuffix x d"
  by (induction subs d enc res rule: filterSubdomains_loop.induct) (auto split: if_splits)

lemma filterLinks_Contains: "x \<in> set (filterLinks links T) \<Longrightarrow> Contains x (extractDomain T)"
  using filterLinks_loop_subset [of x links "extractDomain T" "\<lambda>_. False" "[]"]
  by (simp add: filterLinks_def)

lemma filterSubdomains_HasSuffix:
  "x \<in> set (filterSubdomains subs T) \<Longrightarrow> HasSuffix x (extractDomain T)"
  using filterSubdomains_loop_subset [of x subs "extractDomain T" "\<lambda>_. False" "[]"]
  by (simp add: filterSubdomains_def)

text \<open>The invariant of the loop over the scripts.\<close>

lemma processURL_loop_invariant:
  assumes "processURL_loop fetch ws T n jsFiles (rs, sd, sens) = (rs', sd', sens')"
    and "\<forall>x \<in> set rs. Contains x (extractDomain T)"
    and "\<forall>x \<in> set sd. HasSuffix x (extractDomain T)"
  shows "(\<forall>x \<in> set rs'. Contains x (extractDomain T))
       \<and> (\<forall>x \<in> set sd'. HasSuffix x (extractDomain T))"
  using assms
proof (induction jsFiles arbitrary: n rs sd sens)
  case Nil
  then show ?case by simp
next
  case (Cons jsFile jsFiles)
  show ?case
  proof (cases "fetch n jsFile")
    case None
    with Cons.prems have "processURL_loop fetch ws T (Suc n) jsFiles (rs, sd, sens) = (rs', sd', sens')"
      by simp
    from Cons.IH [OF this Cons.prems(2) Cons.prems(3)] show ?thesis .
  next
    case (Some jsContent)
    let ?rs = "rs @ filterLinks (extractLinks jsContent T) T"
    let ?sd = "sd @ filterSubdomains (extractSubdomains jsContent T) T"
    let ?sens = "sens @ findSensitiveData ws jsContent jsFile"
    from Some Cons.prems have "processURL_loop fetch ws T (Suc n) jsFiles (?rs, ?sd, ?sens) = (rs', sd', sens')"
      by simp
    moreover from Cons.prems(2) have "\<forall>x \<in> set ?rs. Contains x (extractDomain T)"
      by (auto dest: filterLinks_Contains)
    moreover from Cons.prems(3) have "\<forall>x \<in> set ?sd. HasSuffix x (extractDomain T)"
      by (auto dest: filterSubdomains_HasSuffix)
    ultimately show ?thesis by (rule Cons.IH)
  qed
qed

lemma processURL_Inr:
  assumes "processURL fetch ws T = Inr r"
  obtains body rs sd sens where "fetch 0 T = Some body"
    and "extractJSFiles body T \<noteq> []"
    and "processURL_loop fetch ws T 1 (extractJSFiles body T) ([], [], []) = (rs, sd, sens)"
    and "r = \<lparr>Links = removeDuplicates rs, Subdomains = removeDuplicates sd,
              JSFiles = removeDuplicates (extractJSFiles body T),
              SensitiveData = removeDuplicates sens\<rparr>"
  using assms
  by (auto simp: processURL_def Let_def split: option.splits if_splits prod.splits)

text \<open>
  C1. Every link that is reported for a target contains the registrable domain of the
  target (\<open>extractDomain\<close> of the target URL) as a substring: this holds for the links
  of one script, \<open>filterLinks\<close> applied to \<open>extractLinks\<close> and deduplicated, and for
  the \<open>Links\<close> that \<open>processURL\<close> reports. \<open>extractLinks\<close> applies \<open>cleanURL\<close> after
  its own test, but \<open>filterLinks\<close> tests the cleaned string again.
\<close>

theorem links_contain_domain:
  "(L \<in> set (removeDuplicates (filterLinks (extractLinks jsContent targetURL) targetURL))
      \<longrightarrow> (\<exists>pre post. L = pre @ extractDomain targetURL @ post))
   \<and> (processURL fetch sensitiveWords targetURL = Inr r \<longrightarrow> L \<in> set (Links r)
      \<longrightarrow> (\<exists>pre post. L = pre @ extractDomain targetURL @ post))"
proof (intro conjI impI)
  assume "L \<in> set (removeDuplicates (filterLinks (extractLinks jsContent targetURL) targetURL))"
  then have "Contains L (extractDomain targetURL)"
    by (simp add: removeDuplicates_set filterLinks_Contains)
  then show "\<exists>pre post. L = pre @ extractDomain targetURL @ post"
    by (simp add: Contains_iff)
next
  assume r: "processURL fetch sensitiveWords targetURL = Inr r" and L: "L \<in> set (Links r)"
  from r obtain body rs sd sens where
    loop: "processURL_loop fetch sensitiveWords targetURL 1 (extractJSFiles body targetURL) ([], [], [])
      = (rs, sd, sens)"
    and req: "r = \<lparr>Links = removeDuplicates rs, Subdomains = removeDuplicates sd,
              JSFiles = removeDuplicates (extractJSFiles body targetURL),
              SensitiveData = removeDuplicates sens\<rparr>"
    by (rule processURL_Inr)
  from processURL_loop_invariant [OF loop] have "\<forall>x \<in> set rs. Contains x (extractDomain targetURL)"
    by simp
  with L req have "Contains L (extractDomain targetURL)"
    by (simp add: removeDuplicates_set)
  then show "\<exists>pre post. L = pre @ extractDomain targetURL @ post"
    by (simp add: Contains_iff)
qed

theorem links_contain_domain_witness:
  "''https://api.x.com/v1''
      \<in> set (removeDuplicates (filterLinks (extractLinks example_script example_target) example_target))
   \<and> processURL example_fetch [''SECRET_KEY''] example_target = Inr example_results
   \<and> ''https://api.x.com/v1'' \<in> set (Links example_results)
   \<and> (\<exists>pre post. ''https://api.x.com/v1'' = pre @ extractDomain example_target @ post)"
proof -
  have h1: "''https://api.x.com/v1''
      \<in> set (removeDuplicates (filterLinks (extractLinks example_script example_target) example_target))"
    by (simp add: example_links)
  have h2: "''https://api.x.com/v1'' \<in> set (Links example_results)"
    by (simp add: example_results_def)
  from links_contain_domain [of "''https://api.x.com/v1''" example_script example_target
      example_fetch "[''SECRET_KEY'']" example_results] h1
  have "\<exists>pre post. ''https://api.x.com/v1'' = pre @ extractDomain example_target @ post"
    by blast
  with h1 h2 example_run show ?thesis by blast
qed

text \<open>
  C2. Every subdomain that is reported for a target ends with the registrable domain of
  the target: this holds for the subdomains of one script, \<open>filterSubdomains\<close> applied
  to \<open>extractSubdomains\<close>, and for the \<open>Subdomains\<close> that \<open>processURL\<close> reports.
\<close>

theorem subdomains_end_with_domain:
  "(S \<in> set (filterSubdomains (extractSubdomains jsContent targetURL) targetURL)
      \<longrightarrow> (\<exists>pre. S = pre @ extractDomain targetURL))
   \<and> (processURL fetch sensitiveWords targetURL = Inr r \<longrightarrow> S \<in> set (Subdomains r)
      \<longrightarrow> (\<exists>pre. S = pre @ extractDomain targetURL))"
proof (intro conjI impI)
  assume "S \<in> set (filterSubdomains (extractSubdomains jsContent targetURL) targetURL)"
  then have "HasSuffix S (extractDomain targetURL)"
    by (rule filterSubdomains_HasSuffix)
  then show "\<exists>pre. S = pre @ extractDomain targetURL"
    by (simp add: HasSuffix_iff)
next
  assume r: "processURL fetch sensitiveWords targetURL = Inr r" and S: "S \<in> set (Subdomains r)"
  from r obtain body rs sd sens where
    loop: "processURL_loop fetch sensitiveWords targetURL 1 (extractJSFiles body targetURL) ([], [], [])
      = (rs, sd, sens)"
    and req: "r = \<lparr>Links = removeDuplicates rs, Subdomains = removeDuplicates sd,
              JSFiles = removeDuplicates (extractJSFiles body targetURL),
              SensitiveData = removeDuplicates sens\<rparr>"
    by (rule processURL_Inr)
  from processURL_loop_invariant [OF loop] have "\<forall>x \<in> set sd. HasSuffix x (extractDomain targetURL)"
    by simp
  with S req have "HasSuffix S (extractDomain targetURL)"
    by (simp add: removeDuplicates_set)
  then show "\<exists>pre. S = pre @ extractDomain targetURL"
    by (simp add: HasSuffix_iff)
qed

lemma example_subdomains:
  "filterSubdomains (extractSubdomains example_script example_target) example_target
     = [''api.x.com'', ''www.x.com'']"
  by code_simp

theorem subdomains_end_with_domain_witness:
  "''api.x.com''
      \<in> set (filterSubdomains (extractSubdomains example_script example_target) example_target)
   \<and> processURL example_fetch [''SECRET_KEY''] example_target = Inr example_results
   \<and> ''api.x.com'' \<in> set (Subdomains example_results)
   \<and> (\<exists>pre. ''api.x.com'' = pre @ extractDomain example_target)"
proof -
  have h1: "''api.x.com''
      \<in> set (filterSubdomains (extractSubdomains example_script example_target) example_target)"
    by (simp add: example_subdomains)
  have h2: "''api.x.com'' \<in> set (Subdomains example_results)"
    by (simp add: example_results_def)
  from subdomains_end_with_domain [of "''api.x.com''" example_script example_target
      example_fetch "[''SECRET_KEY'']" example_results] h1
  have "\<exists>pre. ''api.x.com'' = pre @ extractDomain example_target"
    by blast
  with h1 h2 example_run show ?thesis by blast
qed

subsection \<open>An empty domain\<close>

lemma Contains_Nil [simp]: "Contains s []"
  unfolding Contains_iff by (rule exI [of _ "[]"], rule exI [of _ s]) simp

lemma HasSuffix_Nil [simp]: "HasSuffix s []"
  by (simp add: HasSuffix_def)

lemma filterLinks_loop_Nil:
  "filterLinks_loop links [] enc res = removeDuplicates_loop links enc res"
  by (induction links arbitrary: enc res) simp_all

lemma filterSubdomains_loop_Nil:
  "filterSubdomains_loop subs [] enc res = removeDuplicates_loop subs enc res"
  by (induction subs arbitrary: enc res) simp_all

text \<open>The list that keeps the first occurrence of every element, in the order of the list.\<close>

lemma first_occurrences_Cons:
  "rev (remdups (rev (x # xs))) = x # rev (remdups (rev (filter (\<lambda>y. y \<noteq> x) xs)))"
proof -
  have "remdups (ys @ [x]) = remdups (filter (\<lambda>y. y \<noteq> x) ys) @ [x]" for ys
    by (induction ys) auto
  from this [of "rev xs"] show ?thesis by (simp add: rev_filter)
qed

lemma removeDuplicates_loop_first_occurrences:
  "removeDuplicates_loop xs enc res = res @ rev (remdups (rev (filter (\<lambda>y. \<not> enc y) xs)))"
proof (induction xs arbitrary: enc res)
  case Nil
  show ?case by simp
next
  case (Cons x xs)
  show ?case
  proof (cases "enc x")
    case True
    with Cons show ?thesis by simp
  next
    case False
    have f: "filter (\<lambda>y. \<not> (enc(x := True)) y) xs = filter (\<lambda>y. y \<noteq> x) (filter (\<lambda>y. \<not> enc y) xs)"
      by (induction xs) auto
    from False have "removeDuplicates_loop (x # xs) enc res
        = removeDuplicates_loop xs (enc(x := True)) (res @ [x])"
      by simp
    also have "\<dots> = (res @ [x]) @ rev (remdups (rev (filter (\<lambda>y. \<not> (enc(x := True)) y) xs)))"
      by (rule Cons)
    also have "\<dots> = res @ rev (remdups (rev (x # filter (\<lambda>y. \<not> enc y) xs)))"
      unfolding f first_occurrences_Cons by simp
    also from False have "x # filter (\<lambda>y. \<not> enc y) xs = filter (\<lambda>y. \<not> enc y) (x # xs)"
      by simp
    finally show ?thesis .
  qed
qed

text \<open>
  C6. When \<open>extractDomain\<close> of the target is the empty string, both scope filters keep
  every string: the result is the list with every string at its first occurrence only,
  so the strings of the result are the strings of the list.
\<close>

theorem filters_permissive_on_empty_domain:
  "extractDomain targetURL = [] \<longrightarrow>
     filterLinks xs targetURL = rev (remdups (rev xs))
     \<and> set (filterLinks xs targetURL) = set xs
     \<and> filterSubdomains xs targetURL = rev (remdups (rev xs))
     \<and> set (filterSubdomains xs targetURL) = set xs"
  by (simp add: filterLinks_def filterSubdomains_def filterLinks_loop_Nil
      filterSubdomains_loop_Nil removeDuplicates_loop_first_occurrences)

theorem filters_permissive_on_empty_domain_witness:
  "extractDomain ''::'' = []
   \<and> filterLinks [''https://b.org/'', ''a'', ''https://b.org/''] ''::'' = [''https://b.org/'', ''a'']
   \<and> filterSubdomains [''b.org'', ''a.com'', ''b.org''] ''::'' = [''b.org'', ''a.com'']"
proof -
  have h: "extractDomain ''::'' = []" by code_simp
  from filters_permissive_on_empty_domain [of "''::''" "[''https://b.org/'', ''a'', ''https://b.org/'']"] h
  have 1: "filterLinks [''https://b.org/'', ''a'', ''https://b.org/''] ''::'' = [''https://b.org/'', ''a'']"
    by simp
  from filters_permissive_on_empty_domain [of "''::''" "[''b.org'', ''a.com'', ''b.org'']"] h
  have 2: "filterSubdomains [''b.org'', ''a.com'', ''b.org''] ''::'' = [''b.org'', ''a.com'']"
    by simp
  from h 1 2 show ?thesis by simp
qed

subsection \<open>The reported categories\<close>

text \<open>
  C8. The result of \<open>removeDuplicates\<close> is sorted in ascending order of the strings
  (byte by byte), has no string twice and holds the strings of its argument; so each of
  the four categories that \<open>processURL\<close> reports is sorted and free of duplicates.
\<close>

theorem categories_sorted_distinct:
  "sorted (removeDuplicates xs) \<and> distinct (removeDuplicates xs)
   \<and> set (removeDuplicates xs) = set xs
   \<and> (processURL fetch sensitiveWords targetURL = Inr r \<longrightarrow>
        sorted (Links r) \<and> distinct (Links r)
        \<and> sorted (Subdomains r) \<and> distinct (Subdomains r)
        \<and> sorted (JSFiles r) \<and> distinct (JSFiles r)
        \<and> sorted (SensitiveData r) \<and> distinct (SensitiveData r))"
proof -
  have "sorted (Links r) \<and> distinct (Links r)
        \<and> sorted (Subdomains r) \<and> distinct (Subdomains r)
        \<and> sorted (JSFiles r) \<and> distinct (JSFiles r)
        \<and> sorted (SensitiveData r) \<and> distinct (SensitiveData r)"
    if "processURL fetch sensitiveWords targetURL = Inr r"
  proof -
    from that obtain body rs sd sens where
      "r = \<lparr>Links = removeDuplicates rs, Subdomains = removeDuplicates sd,
              JSFiles = removeDuplicates (extractJSFiles body targetURL),
              SensitiveData = removeDuplicates sens\<rparr>"
      by (rule processURL_Inr)
    then show ?thesis
      by (simp add: removeDuplicates_sorted removeDuplicates_distinct)
  qed
  then show ?thesis
    by (simp add: removeDuplicates_sorted removeDuplicates_distinct removeDuplicates_set)
qed

theorem categories_sorted_distinct_witness:
  "processURL example_fetch [''SECRET_KEY''] example_target = Inr example_results
   \<and> JSFiles example_results = [''http://cdn.evil.org/lib.js'', ''https://x.com//app.js'']
   \<and> sorted (JSFiles example_results) \<and> distinct (JSFiles example_results)
   \<and> sorted (Subdomains example_results) \<and> distinct (Subdomains example_results)
   \<and> removeDuplicates [''b'', ''ab'', ''b'', ''B'', ''a''] = [''B'', ''a'', ''ab'', ''b'']"
proof -
  from categories_sorted_distinct [of "[]" example_fetch "[''SECRET_KEY'']" example_target
      example_results] example_run
  have "sorted (JSFiles example_results) \<and> distinct (JSFiles example_results)
    \<and> sorted (Subdomains example_results) \<and> distinct (Subdomains example_results)"
    by blast
  moreover have "JSFiles example_results = [''http://cdn.evil.org/lib.js'', ''https://x.com//app.js'']"
    by (simp add: example_results_def)
  moreover have "removeDuplicates [''b'', ''ab'', ''b'', ''B'', ''a''] = [''B'', ''a'', ''ab'', ''b'']"
    by code_simp
  ultimately show ?thesis using example_run by blast
qed

subsection \<open>The sensitive-data matcher\<close>




subsection \<open>The registrable domain\<close>

lemma Split_without_sep: "sep \<notin> set s \<Longrightarrow> Split s sep = [s]"
proof -
  assume "sep \<notin> set s"
  then have h: "dropWhile (\<lambda>c. c \<noteq> sep) s = []" by auto
  show ?thesis by (subst Split.simps) (simp only: h list.case)
qed

lemma Split_first_sep: "sep \<notin> set a \<Longrightarrow> Split (a @ sep # t) sep = a # Split t sep"
proof -
  assume a: "sep \<notin> set a"
  then have all: "\<forall>x \<in> set a. x \<noteq> sep" by auto
  then have d: "dropWhile (\<lambda>c. c \<noteq> sep) (a @ sep # t) = sep # t"
    by (simp add: dropWhile_append3)
  from all have k: "takeWhile (\<lambda>c. c \<noteq> sep) (a @ sep # t) = a"
    by (simp add: takeWhile_tail)
  show ?thesis by (subst Split.simps) (simp only: d k list.case)
qed

lemma Split_append_sep: "Split (x @ sep # t) sep = Split x sep @ Split t sep"
proof (induction x rule: length_induct)
  case (1 x)
  show ?case
  proof (cases "sep \<in> set x")
    case False
    then show ?thesis by (simp add: Split_without_sep Split_first_sep)
  next
    case True
    then obtain a x' where x: "x = a @ sep # x'" and a: "sep \<notin> set a"
      by (auto dest: split_list_first)
    from x have "length x' < length x" by simp
    with 1 have "Split (x' @ sep # t) sep = Split x' sep @ Split t sep" by blast
    with a x show ?thesis by (simp add: Split_first_sep)
  qed
qed

lemma Split_last_two:
  assumes "front = [] \<or> last front = sep" and "sep \<notin> set a" and "sep \<notin> set b"
  shows "\<exists>ps. Split (front @ a @ sep # b) sep = ps @ [a, b]"
proof (cases "front = []")
  case True
  with assms have "Split (front @ a @ sep # b) sep = [] @ [a, b]"
    by (simp add: Split_first_sep Split_without_sep)
  then show ?thesis ..
next
  case False
  with assms(1) obtain f where f: "front = f @ [sep]"
    by (metis append_butlast_last_id)
  have "Split (f @ sep # (a @ sep # b)) sep = Split f sep @ Split (a @ sep # b) sep"
    by (rule Split_append_sep)
  also from assms(2,3) have "Split (a @ sep # b) sep = [a, b]"
    by (simp add: Split_first_sep Split_without_sep)
  finally have "Split (front @ a @ sep # b) sep = Split f sep @ [a, b]"
    by (simp add: f)
  then show ?thesis ..
qed

text \<open>
  C4. \<open>extractDomain\<close> of \<open>https://sub.example.com/a\<close> is \<open>example.com\<close>. It returns the
  empty string when \<open>url.Parse\<close> fails. When the host name ends with two labels \<open>a\<close> and
  \<open>b\<close> (texts without a dot, separated by a dot, and at the start of the host name or
  after a dot) it returns \<open>a.b\<close>; when the host name has no dot it returns the host
  name.
\<close>

theorem extractDomain_last_two_labels:
  "extractDomain ''https://sub.example.com/a'' = ''example.com''
   \<and> (\<forall>rawURL e. Parse rawURL = Inl e \<longrightarrow> extractDomain rawURL = [])
   \<and> (\<forall>rawURL u front a b.
        Parse rawURL = Inr u \<and> Hostname u = front @ a @ ''.'' @ b
        \<and> (front = [] \<or> last front = CHR ''.'') \<and> CHR ''.'' \<notin> set a \<and> CHR ''.'' \<notin> set b
        \<longrightarrow> extractDomain rawURL = a @ ''.'' @ b)
   \<and> (\<forall>rawURL u. Parse rawURL = Inr u \<and> CHR ''.'' \<notin> set (Hostname u)
        \<longrightarrow> extractDomain rawURL = Hostname u)"
proof (intro conjI allI impI)
  show "extractDomain ''https://sub.example.com/a'' = ''example.com''"
    by code_simp
next
  fix rawURL e
  assume "Parse rawURL = Inl e"
  then show "extractDomain rawURL = []"
    by (simp add: extractDomain_def)
next
  fix rawURL u front a b
  assume h: "Parse rawURL = Inr u \<and> Hostname u = front @ a @ ''.'' @ b
        \<and> (front = [] \<or> last front = CHR ''.'') \<and> CHR ''.'' \<notin> set a \<and> CHR ''.'' \<notin> set b"
  then obtain ps where "Split (front @ a @ CHR ''.'' # b) CHR ''.'' = ps @ [a, b]"
    using Split_last_two [of front "CHR ''.''" a b] by blast
  with h have ps: "Split (Hostname u) CHR ''.'' = ps @ [a, b]" by simp
  have "(ps @ [a, b]) ! length ps = a" "(ps @ [a, b]) ! Suc (length ps) = b"
    by (simp_all add: nth_append)
  with h ps show "extractDomain rawURL = a @ ''.'' @ b"
    by (simp add: extractDomain_def Let_def)
next
  fix rawURL u
  assume "Parse rawURL = Inr u \<and> CHR ''.'' \<notin> set (Hostname u)"
  then show "extractDomain rawURL = Hostname u"
    by (simp add: extractDomain_def Let_def Split_without_sep)
qed

lemma example_parse:
  "Parse ''https://sub.example.com:8443/a''
     = Inr (new_URL\<lparr>Scheme := ''https'', Host := ''sub.example.com:8443'', Path := ''/a''\<rparr>)"
  by code_simp

lemma example_parse_localhost:
  "Parse ''http://localhost:3000/''
     = Inr (new_URL\<lparr>Scheme := ''http'', Host := ''localhost:3000'', Path := ''/''\<rparr>)"
  by code_simp

theorem extractDomain_last_two_labels_witness:
  "Parse ''::'' = Inl MissingProtocolScheme \<and> extractDomain ''::'' = []
   \<and> Hostname (new_URL\<lparr>Scheme := ''https'', Host := ''sub.example.com:8443'', Path := ''/a''\<rparr>)
       = ''sub.'' @ ''example'' @ ''.'' @ ''com''
   \<and> extractDomain ''https://sub.example.com:8443/a'' = ''example.com''
   \<and> Hostname (new_URL\<lparr>Scheme := ''http'', Host := ''localhost:3000'', Path := ''/''\<rparr>) = ''localhost''
   \<and> extractDomain ''http://localhost:3000/'' = ''localhost''"
proof -
  note t = extractDomain_last_two_labels
  have p1: "Parse ''::'' = Inl MissingProtocolScheme" by code_simp
  with t have c1: "extractDomain ''::'' = []" by blast
  have h2: "Hostname (new_URL\<lparr>Scheme := ''https'', Host := ''sub.example.com:8443'', Path := ''/a''\<rparr>)
       = ''sub.'' @ ''example'' @ ''.'' @ ''com''"
    by code_simp
  have "last ''sub.'' = CHR ''.''" "CHR ''.'' \<notin> set ''example''" "CHR ''.'' \<notin> set ''com''"
    by simp_all
  with t example_parse h2 have "extractDomain ''https://sub.example.com:8443/a'' = ''example'' @ ''.'' @ ''com''"
    by blast
  then have c2: "extractDomain ''https://sub.example.com:8443/a'' = ''example.com''" by simp
  have h3: "Hostname (new_URL\<lparr>Scheme := ''http'', Host := ''localhost:3000'', Path := ''/''\<rparr>) = ''localhost''"
    by code_simp
  then have "CHR ''.'' \<notin> set (Hostname (new_URL\<lparr>Scheme := ''http'', Host := ''localhost:3000'', Path := ''/''\<rparr>))"
    by simp
  with t example_parse_localhost
  have "extractDomain ''http://localhost:3000/''
      = Hostname (new_URL\<lparr>Scheme := ''http'', Host := ''localhost:3000'', Path := ''/''\<rparr>)"
    by blast
  with h3 have c3: "extractDomain ''http://localhost:3000/'' = ''localhost''" by simp
  from p1 c1 h2 c2 h3 c3 show ?thesis by blast
qed

subsection \<open>Script references\<close>

lemma extractJSFiles_eq:
  "extractJSFiles html baseURL
     = map (\<lambda>m. cleanURL (if \<not> HasPrefix (case snd m of Some g \<Rightarrow> g | None \<Rightarrow> []) ''http''
                           then baseURL @ ''/'' @ (case snd m of Some g \<Rightarrow> g | None \<Rightarrow> [])
                           else (case snd m of Some g \<Rightarrow> g | None \<Rightarrow> [])))
         (FindAllStringSubmatch re_jsFiles html)"
  by (simp add: extractJSFiles_def Let_def foldl_append_map)

text \<open>
  The reference \<open>https://x.com/app.js\<close> is not among the script references of the markup
  \<open><script src="/app.js">\<close> for the target \<open>https://x.com\<close>.
\<close>

theorem extractJSFiles_root_relative_counterexample:
  "''https://x.com/app.js'' \<notin> set (extractJSFiles ''<script src=\"/app.js\">'' ''https://x.com'')"
  by code_simp

text \<open>
  C3, as the code has it. Given the markup \<open><script src="/app.js">\<close> and the target
  \<open>https://x.com\<close>, \<open>extractJSFiles\<close> yields the single reference \<open>https://x.com//app.js\<close>:
  the captured path \<open>/app.js\<close> does not begin with \<open>http\<close>, so it is appended to the
  target URL and one \<open>/\<close>, which keeps the \<open>/\<close> of the path after the separator, and
  \<open>cleanURL\<close> leaves both. A path without a leading \<open>/\<close>, as in \<open><script src="app.js">\<close>,
  yields \<open>https://x.com/app.js\<close>. In general every match of the pattern yields
  \<open>cleanURL\<close> of its captured path when the path begins with \<open>http\<close>, and \<open>cleanURL\<close> of
  the target URL, \<open>/\<close> and the path otherwise.
\<close>

theorem extractJSFiles_concatenates:
  "extractJSFiles ''<script src=\"/app.js\">'' ''https://x.com'' = [''https://x.com//app.js'']
   \<and> extractJSFiles ''<script src=\"app.js\">'' ''https://x.com'' = [''https://x.com/app.js'']
   \<and> extractJSFiles html baseURL
       = map (\<lambda>m. cleanURL (if \<not> HasPrefix (case snd m of Some g \<Rightarrow> g | None \<Rightarrow> []) ''http''
                             then baseURL @ ''/'' @ (case snd m of Some g \<Rightarrow> g | None \<Rightarrow> [])
                             else (case snd m of Some g \<Rightarrow> g | None \<Rightarrow> [])))
           (FindAllStringSubmatch re_jsFiles html)"
proof (intro conjI)
  show "extractJSFiles ''<script src=\"/app.js\">'' ''https://x.com'' = [''https://x.com//app.js'']"
    by code_simp
  show "extractJSFiles ''<script src=\"app.js\">'' ''https://x.com'' = [''https://x.com/app.js'']"
    by code_simp
  show "extractJSFiles html baseURL
       = map (\<lambda>m. cleanURL (if \<not> HasPrefix (case snd m of Some g \<Rightarrow> g | None \<Rightarrow> []) ''http''
                             then baseURL @ ''/'' @ (case snd m of Some g \<Rightarrow> g | None \<Rightarrow> [])
                             else (case snd m of Some g \<Rightarrow> g | None \<Rightarrow> [])))
           (FindAllStringSubmatch re_jsFiles html)"
    by (rule extractJSFiles_eq)
qed

subsection \<open>The canonical form of a URL\<close>

lemma upperhex_not_hash: "n < 16 \<Longrightarrow> upperhex n \<noteq> CHR ''#''"
proof -
  assume "n < 16"
  then have "''0123456789ABCDEF'' ! n \<in> set ''0123456789ABCDEF''"
    by (intro nth_mem) simp
  then show ?thesis unfolding upperhex_def by auto
qed

lemma shouldEscape_hash: "shouldEscape CHR ''#'' mode"
  by (cases mode) (simp_all add: shouldEscape_def is_lower_def is_upper_def is_digit_def)

lemma escape_no_hash: "CHR ''#'' \<notin> set (escape s mode)"
proof -
  define f where "f = (\<lambda>c. if c = CHR '' '' \<and> mode = encodeQueryComponent then ''+''
       else if shouldEscape c mode
         then [CHR ''%'', upperhex (of_char c div 16), upperhex (of_char c mod 16)]
       else [c])"
  have h: "CHR ''#'' \<notin> set (f c)" for c
  proof -
    have "(of_char c :: nat) < 256" by simp
    then have "(of_char c :: nat) div 16 < 16" "(of_char c :: nat) mod 16 < 16" by presburger+
    then have "upperhex (of_char c div 16) \<noteq> CHR ''#''" "upperhex (of_char c mod 16) \<noteq> CHR ''#''"
      by (simp_all add: upperhex_not_hash)
    then show ?thesis using shouldEscape_hash [of mode] by (auto simp: f_def)
  qed
  have "CHR ''#'' \<notin> set (concat (map f s))"
    by (induction s) (simp_all add: h)
  then show ?thesis by (simp add: escape_def f_def)
qed

lemma validEncoded_no_hash: "validEncoded s mode \<Longrightarrow> CHR ''#'' \<notin> set s"
proof
  assume v: "validEncoded s mode" and "CHR ''#'' \<in> set s"
  then have "CHR ''#'' \<in> set ''!$&'()*+,;=:@[]%'' \<or> \<not> shouldEscape CHR ''#'' mode"
    unfolding validEncoded_def list_all_iff by blast
  then show False using shouldEscape_hash [of mode] by simp
qed

lemma EscapedPath_no_hash: "CHR ''#'' \<notin> set (EscapedPath u)"
  by (auto simp: EscapedPath_def escape_no_hash dest: validEncoded_no_hash)

lemma Userinfo_String_no_hash: "CHR ''#'' \<notin> set (Userinfo_String ui)"
  by (simp add: Userinfo_String_def escape_no_hash)

lemma URL_String_no_hash:
  assumes "CHR ''#'' \<notin> set (Scheme u)" and "CHR ''#'' \<notin> set (Opaque u)"
    and "CHR ''#'' \<notin> set (RawQuery u)" and "Fragment u = []"
  shows "CHR ''#'' \<notin> set (URL_String u)"
  using assms
  by (auto simp: URL_String_def Let_def escape_no_hash EscapedPath_no_hash
      Userinfo_String_no_hash split: option.splits)

lemma getScheme_from_subset:
  "getScheme_from rawURL i cs = Inr (scheme, rest)
     \<Longrightarrow> set scheme \<subseteq> set rawURL \<and> set rest \<subseteq> set rawURL"
proof (induction cs arbitrary: i)
  case Nil
  then show ?case by auto
next
  case (Cons c cs)
  then show ?case
    by (auto split: if_splits dest: in_set_takeD in_set_dropD)
qed

lemma ToLower_no_hash: "CHR ''#'' \<notin> set s \<Longrightarrow> CHR ''#'' \<notin> set (ToLower s)"
proof -
  have "char_of (of_char c + (32 :: nat)) \<noteq> CHR ''#''" if "is_upper c" for c
  proof
    assume "char_of (of_char c + (32 :: nat)) = CHR ''#''"
    then have "(of_char (char_of (of_char c + (32 :: nat))) :: nat) = of_char CHR ''#''" by simp
    then have e: "(of_char c + 32) mod 256 = (35 :: nat)" by simp
    from that have "(65 :: nat) \<le> of_char c" "of_char c \<le> (90 :: nat)"
      by (simp_all add: is_upper_def less_eq_char_def)
    with e show False by simp
  qed
  moreover assume s: "CHR ''#'' \<notin> set s"
  ultimately have "(if is_upper c then char_of (of_char c + (32 :: nat)) else c) \<noteq> CHR ''#''"
    if "c \<in> set s" for c
    using that by (cases "is_upper c") auto
  then have h: "(if is_upper c then char_of (of_char c + (32 :: nat)) else c) \<noteq> CHR ''#''"
    if "c \<in> set s" for c
    using that .
  show ?thesis unfolding ToLower_def set_map
  proof (rule notI)
    assume "CHR ''#'' \<in> (\<lambda>c. if is_upper c then char_of (of_char c + (32 :: nat)) else c) ` set s"
    then obtain c where c: "c \<in> set s"
      "CHR ''#'' = (if is_upper c then char_of (of_char c + (32 :: nat)) else c)"
      by (rule imageE)
    from h [OF c(1)] c(2) [symmetric] show False by (rule notE)
  qed
qed

lemma Cut_subset:
  "set (fst (Cut s sep)) \<subseteq> set s" "set (fst (snd (Cut s sep))) \<subseteq> set s"
  by (auto simp: Cut_def split: option.splits dest: in_set_takeD in_set_dropD)

lemma setPath_fields:
  "setPath u p = Inr u' \<Longrightarrow>
     Scheme u' = Scheme u \<and> Opaque u' = Opaque u \<and> RawQuery u' = RawQuery u
     \<and> Fragment u' = Fragment u"
  by (auto simp: setPath_def split: sum.splits)

lemma parse_no_hash:
  assumes "parse s = Inr url" and "CHR ''#'' \<notin> set s"
  shows "CHR ''#'' \<notin> set (Scheme url) \<and> CHR ''#'' \<notin> set (Opaque url)
       \<and> CHR ''#'' \<notin> set (RawQuery url) \<and> Fragment url = []"
proof (cases "s = ''*''")
  case True
  with assms show ?thesis by (auto simp: parse_def new_URL_def split: if_splits)
next
  case False
  with assms(1) obtain scheme0 rest0 where g: "getScheme s = Inr (scheme0, rest0)"
    by (auto simp: parse_def split: if_splits sum.splits)
  then have sub: "set scheme0 \<subseteq> set s" "set rest0 \<subseteq> set s"
    using getScheme_from_subset [of s 0 s scheme0 rest0] by (simp_all add: getScheme_def)
  with assms(2) have n0: "CHR ''#'' \<notin> set scheme0" "CHR ''#'' \<notin> set rest0" by auto
  from n0(1) have n1: "CHR ''#'' \<notin> set (ToLower scheme0)" by (rule ToLower_no_hash)
  from n0 have n2: "CHR ''#'' \<notin> set (butlast rest0)" by (auto dest: in_set_butlastD)
  from n0 have n3: "CHR ''#'' \<notin> set (fst (Cut rest0 ''?''))"
    "CHR ''#'' \<notin> set (fst (snd (Cut rest0 ''?'')))"
    using Cut_subset [of rest0 "''?''"] by auto
  show ?thesis
  proof (cases "HasSuffix rest0 ''?'' \<and> count_list rest0 CHR ''?'' = 1")
    case True
    with assms(1) False g n1 n2 show ?thesis
      by (simp add: parse_def Let_def new_URL_def split: if_splits sum.splits prod.splits)
        (auto dest!: setPath_fields)
  next
    case f: False
    with assms(1) False g n1 n3 show ?thesis
      by (simp add: parse_def Let_def new_URL_def split: if_splits sum.splits prod.splits)
        (auto dest!: setPath_fields)
  qed
qed

lemma Index_first_occurrence: "Index s [c] = Some i \<Longrightarrow> c \<notin> set (take i s)"
proof (induction s arbitrary: i)
  case Nil
  then show ?case by simp
next
  case (Cons x s)
  show ?case
  proof (cases "HasPrefix (x # s) [c]")
    case True
    with Cons.prems have "i = 0" by (subst (asm) Index.simps) simp
    then show ?thesis by simp
  next
    case False
    then have x: "x \<noteq> c" by (auto simp: HasPrefix_def)
    from False Cons.prems obtain j where "Index s [c] = Some j" "i = Suc j"
      by (subst (asm) Index.simps) (auto split: option.splits)
    with Cons.IH x show ?thesis by simp
  qed
qed

lemma Cut_fst_no_sep: "c \<notin> set (fst (Cut s [c]))"
proof (cases "Index s [c]")
  case None
  have "c \<notin> set s"
  proof
    assume "c \<in> set s"
    then obtain a b where "s = a @ c # b" by (auto dest: split_list)
    then have "s = a @ [c] @ b" by simp
    with None show False using Index_None_iff [of s "[c]"] by blast
  qed
  with None show ?thesis by (simp add: Cut_def)
next
  case (Some i)
  then show ?thesis by (simp add: Cut_def Index_first_occurrence)
qed

lemma Parse_no_hash:
  assumes "Parse d = Inr u"
  shows "CHR ''#'' \<notin> set (Scheme u) \<and> CHR ''#'' \<notin> set (Opaque u)
       \<and> CHR ''#'' \<notin> set (RawQuery u)"
proof -
  obtain u0 frag fnd where c: "Cut d ''#'' = (u0, frag, fnd)" by (cases "Cut d ''#''") auto
  then have "u0 = fst (Cut d ''#'')" by simp
  then have n: "CHR ''#'' \<notin> set u0" by (simp add: Cut_fst_no_sep)
  from assms c obtain url where p: "parse u0 = Inr url"
    and u: "u = url \<or> setFragment url frag = Inr u"
    by (auto simp: Parse_def split: sum.splits if_splits)
  from parse_no_hash [OF p n] u show ?thesis
    by (auto simp: setFragment_def split: sum.splits)
qed

lemma cleanURL_no_hash: "Parse d = Inr u \<Longrightarrow> CHR ''#'' \<notin> set (cleanURL d)"
proof -
  assume p: "Parse d = Inr u"
  from Parse_no_hash [OF p] have "CHR ''#'' \<notin> set (URL_String (u\<lparr>Fragment := []\<rparr>))"
    by (intro URL_String_no_hash) simp_all
  with p show ?thesis by (simp add: cleanURL_def)
qed

text \<open>
  C5. \<open>cleanURL\<close> of \<open>https://x.com/a#frag\<close> is \<open>https://x.com/a\<close>. Input that
  \<open>url.Parse\<close> rejects is returned unchanged. For input that \<open>url.Parse\<close> accepts the
  result is the serialisation of the parsed URL with the field \<open>Fragment\<close> cleared, and
  it has no fragment: the byte \<open>#\<close> does not occur in it.
\<close>

theorem cleanURL_clears_fragment:
  "cleanURL ''https://x.com/a#frag'' = ''https://x.com/a''
   \<and> (\<forall>dirtyURL e. Parse dirtyURL = Inl e \<longrightarrow> cleanURL dirtyURL = dirtyURL)
   \<and> (\<forall>dirtyURL u. Parse dirtyURL = Inr u \<longrightarrow>
        cleanURL dirtyURL = URL_String (u\<lparr>Fragment := []\<rparr>)
        \<and> CHR ''#'' \<notin> set (cleanURL dirtyURL))"
proof (intro conjI allI impI)
  show "cleanURL ''https://x.com/a#frag'' = ''https://x.com/a''"
    by code_simp
next
  fix dirtyURL e
  assume "Parse dirtyURL = Inl e"
  then show "cleanURL dirtyURL = dirtyURL" by (simp add: cleanURL_def)
next
  fix dirtyURL u
  assume "Parse dirtyURL = Inr u"
  then show "cleanURL dirtyURL = URL_String (u\<lparr>Fragment := []\<rparr>)"
    by (simp add: cleanURL_def)
next
  fix dirtyURL u
  assume "Parse dirtyURL = Inr u"
  then show "CHR ''#'' \<notin> set (cleanURL dirtyURL)" by (rule cleanURL_no_hash)
qed

lemma example_parse_fragment:
  "Parse ''https://x.com/a b?q=1#frag''
     = Inr (new_URL\<lparr>Scheme := ''https'', Host := ''x.com'', Path := ''/a b'', RawPath := ''/a b'',
                    RawQuery := ''q=1'', Fragment := ''frag''\<rparr>)"
  by code_simp

theorem cleanURL_clears_fragment_witness:
  "Parse ''https://x.com/a#%zz'' = Inl (EscapeError ''%zz'')
   \<and> cleanURL ''https://x.com/a#%zz'' = ''https://x.com/a#%zz''
   \<and> Parse ''https://x.com/a b?q=1#frag''
       = Inr (new_URL\<lparr>Scheme := ''https'', Host := ''x.com'', Path := ''/a b'', RawPath := ''/a b'',
                      RawQuery := ''q=1'', Fragment := ''frag''\<rparr>)
   \<and> cleanURL ''https://x.com/a b?q=1#frag'' = ''https://x.com/a%20b?q=1''
   \<and> CHR ''#'' \<notin> set (cleanURL ''https://x.com/a b?q=1#frag'')"
proof -
  note t = cleanURL_clears_fragment
  have p1: "Parse ''https://x.com/a#%zz'' = Inl (EscapeError ''%zz'')" by code_simp
  with t have c1: "cleanURL ''https://x.com/a#%zz'' = ''https://x.com/a#%zz''" by blast
  from t example_parse_fragment have c2: "CHR ''#'' \<notin> set (cleanURL ''https://x.com/a b?q=1#frag'')"
    by blast
  have c3: "cleanURL ''https://x.com/a b?q=1#frag'' = ''https://x.com/a%20b?q=1''" by code_simp
  from p1 c1 example_parse_fragment c2 c3 show ?thesis by blast
qed

subsection \<open>Matches of the script pattern\<close>

lemma step_Plus_Class:
  "step (Plus (Class P)) t =
     (case input t of
        [] \<Rightarrow> []
      | c # cs \<Rightarrow>
          if P c then step (Plus (Class P)) (t\<lparr>prev := Some c, input := cs\<rparr>)
                      @ [t\<lparr>prev := Some c, input := cs\<rparr>]
          else [])"
  by (subst step.simps(5)) (simp split: list.splits)

lemma step_Plus_Class_sound:
  "t' \<in> set (step (Plus (Class P)) t) \<Longrightarrow>
     \<exists>run. run \<noteq> [] \<and> (\<forall>c \<in> set run. P c) \<and> input t = run @ input t' \<and> group1 t' = group1 t"
proof (induction "input t" arbitrary: t)
  case Nil
  then show ?case by (subst (asm) step_Plus_Class) simp
next
  case (Cons c cs)
  let ?u = "t\<lparr>prev := Some c, input := cs\<rparr>"
  from Cons.hyps(2) [symmetric] Cons.prems have P: "P c"
    and t': "t' \<in> set (step (Plus (Class P)) ?u) \<or> t' = ?u"
    by (subst (asm) step_Plus_Class, auto split: if_splits)+
  from t' show ?case
  proof
    assume "t' = ?u"
    with P Cons.hyps(2) have "[c] \<noteq> [] \<and> (\<forall>x \<in> set [c]. P x) \<and> input t = [c] @ input t'
        \<and> group1 t' = group1 t"
      by simp
    then show ?thesis by blast
  next
    assume m: "t' \<in> set (step (Plus (Class P)) ?u)"
    have "cs = input ?u" by simp
    from Cons.hyps(1) [OF this m] obtain run where
      "run \<noteq> []" "\<forall>x \<in> set run. P x" "input ?u = run @ input t'" "group1 t' = group1 ?u"
      by blast
    with P Cons.hyps(2) have "c # run \<noteq> [] \<and> (\<forall>x \<in> set (c # run). P x)
        \<and> input t = (c # run) @ input t' \<and> group1 t' = group1 t"
      by simp
    then show ?thesis by blast
  qed
qed

lemma step_Plus_Class_complete:
  "run \<noteq> [] \<Longrightarrow> \<forall>c \<in> set run. P c \<Longrightarrow> input t = run @ r \<Longrightarrow>
     \<exists>t' \<in> set (step (Plus (Class P)) t). input t' = r \<and> group1 t' = group1 t"
proof (induction run arbitrary: t)
  case Nil
  then show ?case by simp
next
  case (Cons c run)
  let ?u = "t\<lparr>prev := Some c, input := run @ r\<rparr>"
  from Cons.prems have s: "step (Plus (Class P)) t = step (Plus (Class P)) ?u @ [?u]"
    by (subst step_Plus_Class) simp
  show ?case
  proof (cases "run = []")
    case True
    with s show ?thesis by simp
  next
    case False
    with Cons.prems have "\<exists>t' \<in> set (step (Plus (Class P)) ?u). input t' = r \<and> group1 t' = group1 ?u"
      by (intro Cons.IH) simp_all
    with s show ?thesis by auto
  qed
qed

lemma HasPrefix_append: "HasPrefix s l \<Longrightarrow> s = l @ drop (length l) s"
  by (metis HasPrefix_def append_take_drop_id)

lemma step_Seq_mem:
  "t' \<in> set (step (Seq a b) t) \<longleftrightarrow> (\<exists>u \<in> set (step a t). t' \<in> set (step b u))"
  by auto

lemma step_Lit_mem:
  "t' \<in> set (step (Lit l) t) \<Longrightarrow>
     input t = l @ input t' \<and> group1 t' = group1 t"
proof -
  assume a: "t' \<in> set (step (Lit l) t)"
  then have h: "HasPrefix (input t) l" and t': "input t' = drop (length l) (input t)"
    "group1 t' = group1 t"
    by (auto split: if_splits)
  from HasPrefix_append [OF h] t' show ?thesis by simp
qed

lemma step_Capture_mem:
  "t' \<in> set (step (Capture a) t) \<Longrightarrow>
     \<exists>u \<in> set (step a t). input t' = input u
        \<and> group1 t' = Some (take (length (input t) - length (input u)) (input t))"
  by auto

lemma step_re_jsFiles_sound:
  assumes "t' \<in> set (step re_jsFiles t)"
  shows "\<exists>p rest. p \<noteq> [] \<and> CHR ''\"'' \<notin> set p \<and> input t = ''src=\"'' @ p @ ''.js\"'' @ rest
           \<and> input t' = rest \<and> group1 t' = Some (p @ ''.js'')"
proof -
  let ?NQ = "\<lambda>c. c \<noteq> CHR ''\"''"
  from assms obtain u1 c where
    u1: "u1 \<in> set (step (Lit ''src=\"'') t)"
    and c: "c \<in> set (step (Capture (Seq (Plus (Class ?NQ)) (Lit ''.js''))) u1)"
    and t': "t' \<in> set (step (Lit ''\"'') c)"
    unfolding re_jsFiles_def step_Seq_mem by blast
  from step_Capture_mem [OF c] obtain u3 where
    u3: "u3 \<in> set (step (Seq (Plus (Class ?NQ)) (Lit ''.js'')) u1)"
    and ic: "input c = input u3"
    and gc: "group1 c = Some (take (length (input u1) - length (input u3)) (input u1))"
    by blast
  from u3 obtain u2 where
    u2: "u2 \<in> set (step (Plus (Class ?NQ)) u1)" and u3': "u3 \<in> set (step (Lit ''.js'') u2)"
    unfolding step_Seq_mem by blast
  from step_Plus_Class_sound [OF u2] obtain run where
    run: "run \<noteq> []" "\<forall>c \<in> set run. c \<noteq> CHR ''\"''" "input u1 = run @ input u2"
    by blast
  from step_Lit_mem [OF u1] have a: "input t = ''src=\"'' @ input u1" by simp
  from step_Lit_mem [OF u3'] have b: "input u2 = ''.js'' @ input u3" by simp
  from step_Lit_mem [OF t'] ic have d: "input u3 = ''\"'' @ input t'" and g: "group1 t' = group1 c"
    by simp_all
  from run(3) b have "take (length (input u1) - length (input u3)) (input u1) = run @ ''.js''"
    by simp
  with gc g have g': "group1 t' = Some (run @ ''.js'')" by simp
  from a run(3) b d have "input t = ''src=\"'' @ run @ ''.js\"'' @ input t'" by simp
  moreover from run(2) have "CHR ''\"'' \<notin> set run" by blast
  ultimately show ?thesis using run(1) g' by blast
qed

lemma step_Lit_complete:
  "input t = l @ r \<Longrightarrow> \<exists>t' \<in> set (step (Lit l) t). input t' = r \<and> group1 t' = group1 t"
  by (simp add: HasPrefix_def)

lemma step_re_jsFiles_complete:
  assumes "p \<noteq> []" and "CHR ''\"'' \<notin> set p" and "input t = ''src=\"'' @ p @ ''.js\"'' @ rest"
  shows "step re_jsFiles t \<noteq> []"
proof -
  let ?NQ = "\<lambda>c. c \<noteq> CHR ''\"''"
  from assms(3) have "input t = ''src=\"'' @ (p @ ''.js\"'' @ rest)" by simp
  from step_Lit_complete [OF this] obtain u1 where
    u1: "u1 \<in> set (step (Lit ''src=\"'') t)" and i1: "input u1 = p @ ''.js\"'' @ rest"
    by blast
  from assms(2) have "\<forall>c \<in> set p. c \<noteq> CHR ''\"''" by blast
  from step_Plus_Class_complete [OF assms(1) this i1] obtain u2 where
    u2: "u2 \<in> set (step (Plus (Class ?NQ)) u1)" and i2: "input u2 = ''.js\"'' @ rest"
    by blast
  from i2 have "input u2 = ''.js'' @ (''\"'' @ rest)" by simp
  from step_Lit_complete [OF this] obtain u3 where
    u3: "u3 \<in> set (step (Lit ''.js'') u2)" and i3: "input u3 = ''\"'' @ rest"
    by blast
  from u2 u3 have "u3 \<in> set (step (Seq (Plus (Class ?NQ)) (Lit ''.js'')) u1)"
    unfolding step_Seq_mem by blast
  then obtain c where c: "c \<in> set (step (Capture (Seq (Plus (Class ?NQ)) (Lit ''.js''))) u1)"
    and ic: "input c = input u3"
    by (simp del: step.simps(1,3)) force
  from ic i3 have "input c = ''\"'' @ rest" by simp
  from step_Lit_complete [OF this] obtain t' where "t' \<in> set (step (Lit ''\"'') c)"
    by blast
  with u1 c have "t' \<in> set (step re_jsFiles t)"
    unfolding re_jsFiles_def step_Seq_mem by blast
  then show ?thesis by auto
qed

lemma step_length: "t' \<in> set (step r t) \<Longrightarrow> length (input t') \<le> length (input t)"
proof (induction r t arbitrary: t' rule: step.induct)
  case (1 l t)
  then show ?case by (auto split: if_splits)
next
  case (2 P t)
  then show ?case by (cases "input t") (auto split: if_splits)
next
  case (3 a b t)
  then show ?case by fastforce
next
  case (4 a t)
  then show ?case by auto
next
  case (5 a t)
  from "5.prems" obtain u where u: "u \<in> set (step a t)"
    and t': "t' \<in> set ((if length (input u) < length (input t) then step (Plus a) u else []) @ [u])"
    by (subst (asm) step.simps(5)) auto
  from u have le: "length (input u) \<le> length (input t)" by (rule "5.IH"(1))
  show ?case
  proof (cases "t' = u")
    case True
    with le show ?thesis by simp
  next
    case False
    with t' have lt: "length (input u) < length (input t)" and "t' \<in> set (step (Plus a) u)"
      by (auto split: if_splits)
    with "5.IH"(2) [OF u] have "length (input t') \<le> length (input u)" by blast
    with lt show ?thesis by simp
  qed
next
  case (6 a t)
  then show ?case by fastforce
next
  case (7 t)
  then show ?case by (auto split: if_splits)
qed

lemma doExecute_hit: "step re t = t' # ts \<Longrightarrow> doExecute re t = Some (t, t')"
  by (subst doExecute.simps) simp

lemma doExecute_miss:
  "step re t = [] \<Longrightarrow> input t = c # cs \<Longrightarrow>
     doExecute re t = doExecute re (t\<lparr>prev := Some c, input := cs\<rparr>)"
  by (subst doExecute.simps) simp

lemma doExecute_result:
  "doExecute re t = Some (t0, t1) \<Longrightarrow>
     t1 \<in> set (step re t0) \<and> length (input t0) \<le> length (input t)"
proof (induction re t rule: doExecute.induct)
  case (1 re t)
  show ?case
  proof (cases "step re t")
    case (Cons t' ts)
    with "1.prems" show ?thesis by (simp add: doExecute_hit)
  next
    case Nil
    show ?thesis
    proof (cases "input t")
      case Nil': Nil
      with Nil "1.prems" show ?thesis by (subst (asm) doExecute.simps) simp
    next
      case (Cons c cs)
      with Nil "1.prems" have "doExecute re (t\<lparr>prev := Some c, input := cs\<rparr>) = Some (t0, t1)"
        by (simp add: doExecute_miss)
      from "1.IH" [OF Nil Cons this] Cons show ?thesis by simp
    qed
  qed
qed

text \<open>Two occurrences of a quoted script path in a text do not overlap.\<close>

lemma first_occurrence_unique:
  "x \<notin> set a \<Longrightarrow> x \<notin> set a' \<Longrightarrow> a @ x # r = a' @ x # r' \<Longrightarrow> a = a' \<and> r = r'"
proof (induction a arbitrary: a')
  case Nil
  then show ?case by (cases a') auto
next
  case (Cons y a)
  then show ?case by (cases a') auto
qed

lemma occurrences_apart:
  assumes e: "''src=\"'' @ p' @ ''.js\"'' @ rest' = pre @ ''src=\"'' @ p @ ''.js\"'' @ post"
    and p': "CHR ''\"'' \<notin> set p'" and p: "CHR ''\"'' \<notin> set p"
  shows "(pre = [] \<and> p' = p \<and> rest' = post)
       \<or> (\<exists>pd. pre = ''src=\"'' @ p' @ ''.js\"'' @ pd \<and> rest' = pd @ ''src=\"'' @ p @ ''.js\"'' @ post)"
proof -
  let ?Q = "CHR ''\"''"
  from p' have q': "?Q \<notin> set (p' @ ''.js'')" by simp
  from p have q: "?Q \<notin> set (p @ ''.js'')" by simp
  have s: "?Q \<notin> set ''src=''" by simp
  show ?thesis
  proof (cases "?Q \<in> set pre")
    case False
    then have n: "?Q \<notin> set (pre @ ''src='')" by simp
    from e have "''src='' @ ?Q # ((p' @ ''.js'') @ ?Q # rest')
        = (pre @ ''src='') @ ?Q # ((p @ ''.js'') @ ?Q # post)"
      by simp
    from first_occurrence_unique [OF s n this] have 1: "''src='' = pre @ ''src=''"
      and 2: "(p' @ ''.js'') @ ?Q # rest' = (p @ ''.js'') @ ?Q # post"
      by blast+
    from 1 have "pre = []" by simp
    moreover from first_occurrence_unique [OF q' q 2] have "p' @ ''.js'' = p @ ''.js''" "rest' = post"
      by blast+
    ultimately show ?thesis by simp
  next
    case True
    then obtain pa pb where pre: "pre = pa @ ?Q # pb" and pa: "?Q \<notin> set pa"
      by (auto dest: split_list_first)
    from e pre have "''src='' @ ?Q # ((p' @ ''.js'') @ ?Q # rest')
        = pa @ ?Q # (pb @ ''src=\"'' @ p @ ''.js\"'' @ post)"
      by simp
    from first_occurrence_unique [OF s pa this] have 1: "''src='' = pa"
      and 2: "(p' @ ''.js'') @ ?Q # rest' = pb @ ''src=\"'' @ p @ ''.js\"'' @ post"
      by blast+
    show ?thesis
    proof (cases "?Q \<in> set pb")
      case False
      then have n: "?Q \<notin> set (pb @ ''src='')" by simp
      from 2 have "(p' @ ''.js'') @ ?Q # rest' = (pb @ ''src='') @ ?Q # (p @ ''.js\"'' @ post)"
        by simp
      from first_occurrence_unique [OF q' n this] have "p' @ ''.js'' = pb @ ''src=''"
        by blast
      then have "last (p' @ ''.js'') = last (pb @ ''src='')" by simp
      then show ?thesis by simp
    next
      case True
      then obtain pc pd where pb: "pb = pc @ ?Q # pd" and pc: "?Q \<notin> set pc"
        by (auto dest: split_list_first)
      from 2 pb have "(p' @ ''.js'') @ ?Q # rest' = pc @ ?Q # (pd @ ''src=\"'' @ p @ ''.js\"'' @ post)"
        by simp
      from first_occurrence_unique [OF q' pc this]
      have "p' @ ''.js'' = pc" "rest' = pd @ ''src=\"'' @ p @ ''.js\"'' @ post"
        by blast+
      with pre pb 1 [symmetric] have "pre = ''src=\"'' @ p' @ ''.js\"'' @ pd
          \<and> rest' = pd @ ''src=\"'' @ p @ ''.js\"'' @ post"
        by simp
      then show ?thesis by blast
    qed
  qed
qed

lemma allMatches_finds_occurrence:
  assumes "p \<noteq> []" and "CHR ''\"'' \<notin> set p"
    and "input t = pre @ ''src=\"'' @ p @ ''.js\"'' @ post"
  shows "(''src=\"'' @ p @ ''.js\"'', Some (p @ ''.js'')) \<in> set (allMatches re_jsFiles t prevMatchEnd)"
  using assms(3)
proof (induction "length pre" arbitrary: pre t prevMatchEnd rule: less_induct)
  case less
  let ?occ = "''src=\"'' @ p @ ''.js\"''"
  let ?t = "t\<lparr>group1 := None\<rparr>"
  have it: "input ?t = pre @ ?occ @ post" using less.prems by simp
  show ?case
  proof (cases "step re_jsFiles ?t")
    case Nil
    have "pre \<noteq> []"
    proof
      assume "pre = []"
      with it have "input ?t = ''src=\"'' @ p @ ''.js\"'' @ post" by simp
      from step_re_jsFiles_complete [OF assms(1,2) this] Nil show False by simp
    qed
    then obtain c pre' where pre: "pre = c # pre'" by (cases pre) auto
    let ?cs = "pre' @ ?occ @ post"
    let ?t' = "t\<lparr>prev := Some c, input := ?cs\<rparr>"
    from pre it have ic: "input ?t = c # ?cs" by simp
    have "?t\<lparr>prev := Some c, input := ?cs\<rparr> = ?t'\<lparr>group1 := None\<rparr>"
      by (cases t) simp
    with doExecute_miss [OF Nil ic]
    have d: "doExecute re_jsFiles ?t = doExecute re_jsFiles (?t'\<lparr>group1 := None\<rparr>)"
      by (simp only:)
    from pre have "length pre' < length pre" by simp
    moreover have "input ?t' = pre' @ ''src=\"'' @ p @ ''.js\"'' @ post" by simp
    ultimately have IH: "(?occ, Some (p @ ''.js'')) \<in> set (allMatches re_jsFiles ?t' prevMatchEnd)"
      by (rule less.hyps)
    have "allMatches re_jsFiles t prevMatchEnd = allMatches re_jsFiles ?t' prevMatchEnd"
    proof (cases "doExecute re_jsFiles (?t'\<lparr>group1 := None\<rparr>)")
      case None
      with d show ?thesis
        by (subst allMatches.simps, subst (2) allMatches.simps) simp
    next
      case (Some m)
      obtain t0 t1 where m: "m = (t0, t1)" by (cases m)
      from Some m doExecute_result [of re_jsFiles "?t'\<lparr>group1 := None\<rparr>" t0 t1]
      have t1: "t1 \<in> set (step re_jsFiles t0)" and l0: "length (input t0) \<le> length ?cs"
        by simp_all
      from step_re_jsFiles_sound [OF t1] have "length (input t1) < length (input t0)" by auto
      with l0 less.prems pre have ne: "length (input t1) \<noteq> length (input t)"
        "length (input t1) \<noteq> length (input ?t')"
        by simp_all
      from d Some m ne show ?thesis
        by (subst allMatches.simps, subst (2) allMatches.simps) simp
    qed
    with IH show ?thesis by simp
  next
    case (Cons t1 ts)
    then have t1: "t1 \<in> set (step re_jsFiles ?t)" by simp
    from step_re_jsFiles_sound [OF this] obtain p' rest' where
      p': "p' \<noteq> []" "CHR ''\"'' \<notin> set p'"
      and i': "input ?t = ''src=\"'' @ p' @ ''.js\"'' @ rest'"
      and i1: "input t1 = rest'" and g1: "group1 t1 = Some (p' @ ''.js'')"
      by blast
    from i' i1 have ne: "length (input t1) \<noteq> length (input t)" by simp
    have tk: "take (length (input ?t) - length (input t1)) (input ?t) = ''src=\"'' @ p' @ ''.js\"''"
    proof -
      from i' i1 have e: "input ?t = (''src=\"'' @ p' @ ''.js\"'') @ input t1" by simp
      have g: "take (length (a @ b) - length b) (a @ b) = a" for a b :: string by simp
      show ?thesis unfolding e by (rule g)
    qed
    from doExecute_hit [OF Cons] ne tk g1
    have am: "allMatches re_jsFiles t prevMatchEnd
        = (''src=\"'' @ p' @ ''.js\"'', Some (p' @ ''.js''))
          # allMatches re_jsFiles t1 (Some (length (input t1)))"
      by (subst allMatches.simps) simp
    from i' it have "''src=\"'' @ p' @ ''.js\"'' @ rest' = pre @ ''src=\"'' @ p @ ''.js\"'' @ post"
      by simp
    from occurrences_apart [OF this p'(2) assms(2)] show ?thesis
    proof
      assume "pre = [] \<and> p' = p \<and> rest' = post"
      with am show ?thesis by simp
    next
      assume "\<exists>pd. pre = ''src=\"'' @ p' @ ''.js\"'' @ pd \<and> rest' = pd @ ''src=\"'' @ p @ ''.js\"'' @ post"
      then obtain pd where pd: "pre = ''src=\"'' @ p' @ ''.js\"'' @ pd"
        and r: "rest' = pd @ ''src=\"'' @ p @ ''.js\"'' @ post"
        by blast
      from pd have "length pd < length pre" by simp
      moreover from i1 r have "input t1 = pd @ ''src=\"'' @ p @ ''.js\"'' @ post" by simp
      ultimately have "(?occ, Some (p @ ''.js''))
          \<in> set (allMatches re_jsFiles t1 (Some (length (input t1))))"
        by (rule less.hyps)
      with am show ?thesis by simp
    qed
  qed
qed

lemma extractJSFiles_finds_occurrence:
  assumes "p \<noteq> []" and "CHR ''\"'' \<notin> set p"
  shows "cleanURL (if \<not> HasPrefix (p @ ''.js'') ''http'' then baseURL @ ''/'' @ p @ ''.js''
                   else p @ ''.js'')
           \<in> set (extractJSFiles (pre @ ''src=\"'' @ p @ ''.js\"'' @ post) baseURL)"
proof -
  let ?html = "pre @ ''src=\"'' @ p @ ''.js\"'' @ post"
  let ?f = "\<lambda>m. cleanURL (if \<not> HasPrefix (case snd m of Some g \<Rightarrow> g | None \<Rightarrow> []) ''http''
                           then baseURL @ ''/'' @ (case snd m of Some g \<Rightarrow> g | None \<Rightarrow> [])
                           else (case snd m of Some g \<Rightarrow> g | None \<Rightarrow> []))"
  let ?ref = "cleanURL (if \<not> HasPrefix (p @ ''.js'') ''http'' then baseURL @ ''/'' @ p @ ''.js''
                   else p @ ''.js'')"
  have "input \<lparr>prev = None, input = ?html, group1 = None\<rparr> = pre @ ''src=\"'' @ p @ ''.js\"'' @ post"
    by simp
  from allMatches_finds_occurrence [OF assms this]
  have "(''src=\"'' @ p @ ''.js\"'', Some (p @ ''.js'')) \<in> set (FindAllStringSubmatch re_jsFiles ?html)"
    by (simp only: FindAllStringSubmatch_def)
  then have "?f (''src=\"'' @ p @ ''.js\"'', Some (p @ ''.js''))
      \<in> ?f ` set (FindAllStringSubmatch re_jsFiles ?html)"
    by (rule imageI)
  moreover have "?f (''src=\"'' @ p @ ''.js\"'', Some (p @ ''.js'')) = ?ref"
    by (simp only: snd_conv option.case)
  ultimately have "?ref \<in> ?f ` set (FindAllStringSubmatch re_jsFiles ?html)"
    by (simp only:)
  then show ?thesis by (simp only: extractJSFiles_eq set_map)
qed

text \<open>
  The markup \<open><script src=".js">\<close> has a double-quoted \<open>src\<close> attribute that ends in
  \<open>.js\<close>, and no script reference is extracted from it: the pattern asks for at least
  one character before \<open>.js\<close>.
\<close>

theorem script_reference_needs_stem_counterexample:
  "extractJSFiles ''<script src=\".js\">'' ''https://x.com'' = []"
  by code_simp

text \<open>
  C10, as the code has it. Script references are not scoped by domain. Whenever the page of the
  target can be fetched and holds a double-quoted \<open>src\<close> attribute whose value is at
  least one character followed by \<open>.js\<close> (the text \<open>src="\<close>, a path \<open>p\<close> that is not
  empty and has no double quote, and \<open>.js"\<close>), \<open>processURL\<close> reports a result whose
  \<open>JSFiles\<close> hold the reference: \<open>cleanURL\<close> of the value when it begins with \<open>http\<close>,
  and of the target URL, \<open>/\<close> and the value otherwise, whatever the domain of the
  reference. The \<open>JSFiles\<close> of every result are all the references that
  \<open>extractJSFiles\<close> finds in the page, deduplicated and sorted: no filter is applied.
\<close>

theorem script_references_not_scoped:
  "(fetch 0 targetURL = Some (pre @ ''src=\"'' @ p @ ''.js\"'' @ post)
      \<and> p \<noteq> [] \<and> CHR ''\"'' \<notin> set p
    \<longrightarrow> (\<exists>r. processURL fetch sensitiveWords targetURL = Inr r
          \<and> cleanURL (if \<not> HasPrefix (p @ ''.js'') ''http'' then targetURL @ ''/'' @ p @ ''.js''
                       else p @ ''.js'')
              \<in> set (JSFiles r)))
   \<and> (processURL fetch sensitiveWords targetURL = Inr r
    \<longrightarrow> (\<exists>body. fetch 0 targetURL = Some body
          \<and> JSFiles r = removeDuplicates (extractJSFiles body targetURL)))"
proof (intro conjI impI)
  assume a: "fetch 0 targetURL = Some (pre @ ''src=\"'' @ p @ ''.js\"'' @ post)
      \<and> p \<noteq> [] \<and> CHR ''\"'' \<notin> set p"
  let ?body = "pre @ ''src=\"'' @ p @ ''.js\"'' @ post"
  let ?ref = "cleanURL (if \<not> HasPrefix (p @ ''.js'') ''http'' then targetURL @ ''/'' @ p @ ''.js''
                       else p @ ''.js'')"
  from a have m: "?ref \<in> set (extractJSFiles ?body targetURL)"
    by (intro extractJSFiles_finds_occurrence) simp_all
  then have ne: "extractJSFiles ?body targetURL \<noteq> []" by auto
  obtain rs sd sens where
    "processURL_loop fetch sensitiveWords targetURL 1 (extractJSFiles ?body targetURL) ([], [], [])
       = (rs, sd, sens)"
    by (cases "processURL_loop fetch sensitiveWords targetURL 1 (extractJSFiles ?body targetURL)
        ([], [], [])") auto
  with a ne have "processURL fetch sensitiveWords targetURL
      = Inr \<lparr>Links = removeDuplicates rs, Subdomains = removeDuplicates sd,
             JSFiles = removeDuplicates (extractJSFiles ?body targetURL),
             SensitiveData = removeDuplicates sens\<rparr>"
    by (simp add: processURL_def Let_def)
  moreover from m have "?ref \<in> set (JSFiles \<lparr>Links = removeDuplicates rs,
      Subdomains = removeDuplicates sd,
      JSFiles = removeDuplicates (extractJSFiles ?body targetURL),
      SensitiveData = removeDuplicates sens\<rparr>)"
    by (simp add: removeDuplicates_set)
  ultimately show "\<exists>r. processURL fetch sensitiveWords targetURL = Inr r \<and> ?ref \<in> set (JSFiles r)"
    by blast
next
  assume "processURL fetch sensitiveWords targetURL = Inr r"
  then obtain body rs sd sens where "fetch 0 targetURL = Some body"
    and "r = \<lparr>Links = removeDuplicates rs, Subdomains = removeDuplicates sd,
              JSFiles = removeDuplicates (extractJSFiles body targetURL),
              SensitiveData = removeDuplicates sens\<rparr>"
    by (rule processURL_Inr)
  then show "\<exists>body. fetch 0 targetURL = Some body
          \<and> JSFiles r = removeDuplicates (extractJSFiles body targetURL)"
    by simp
qed

theorem script_references_not_scoped_witness:
  "example_fetch 0 example_target
     = Some (''<script src=\"/app.js\"></script><script '' @ ''src=\"'' @ ''http://cdn.evil.org/lib''
             @ ''.js\"'' @ ''></script>'')
   \<and> processURL example_fetch [''SECRET_KEY''] example_target = Inr example_results
   \<and> JSFiles example_results = removeDuplicates (extractJSFiles example_page example_target)
   \<and> ''http://cdn.evil.org/lib.js'' \<in> set (JSFiles example_results)
   \<and> extractDomain example_target = ''x.com''
   \<and> \<not> Contains ''http://cdn.evil.org/lib.js'' ''x.com''"
proof -
  note t = script_references_not_scoped [of example_fetch example_target
      "''<script src=\"/app.js\"></script><script ''" "''http://cdn.evil.org/lib''" "''></script>''"
      "[''SECRET_KEY'']" example_results]
  have f: "example_fetch 0 example_target
     = Some (''<script src=\"/app.js\"></script><script '' @ ''src=\"'' @ ''http://cdn.evil.org/lib''
             @ ''.js\"'' @ ''></script>'')"
    by (simp add: example_fetch_def example_target_def example_page_def)
  have "''http://cdn.evil.org/lib'' \<noteq> []" "CHR ''\"'' \<notin> set ''http://cdn.evil.org/lib''"
    by simp_all
  with t f obtain r where r: "processURL example_fetch [''SECRET_KEY''] example_target = Inr r"
    and m: "cleanURL (if \<not> HasPrefix (''http://cdn.evil.org/lib'' @ ''.js'') ''http''
                      then example_target @ ''/'' @ ''http://cdn.evil.org/lib'' @ ''.js''
                      else ''http://cdn.evil.org/lib'' @ ''.js'') \<in> set (JSFiles r)"
    by blast
  from r example_run have re: "r = example_results" by simp
  have "cleanURL (if \<not> HasPrefix (''http://cdn.evil.org/lib'' @ ''.js'') ''http''
                      then example_target @ ''/'' @ ''http://cdn.evil.org/lib'' @ ''.js''
                      else ''http://cdn.evil.org/lib'' @ ''.js'') = ''http://cdn.evil.org/lib.js''"
    by code_simp
  with m re have c1: "''http://cdn.evil.org/lib.js'' \<in> set (JSFiles example_results)" by simp
  from t example_run obtain body where "example_fetch 0 example_target = Some body"
    and "JSFiles example_results = removeDuplicates (extractJSFiles body example_target)"
    by blast
  then have c2: "JSFiles example_results = removeDuplicates (extractJSFiles example_page example_target)"
    by (simp add: example_fetch_def example_target_def)
  have c3: "\<not> Contains ''http://cdn.evil.org/lib.js'' ''x.com''" by code_simp
  from f example_run c2 c1 example_domain c3 show ?thesis by blast
qed

end
